theory Spec2Isabelle
  imports Main "HOL-Library.Char_ord" "HOL-Library.List_Lexorder" "HOL-Library.Product_Lexorder"
begin

section \<open>Data model\<close>

text \<open>
  The two modules \<^verbatim>\<open>concepts/deadlock/algorithms.py\<close> and
  \<^verbatim>\<open>concepts/resource_allocation/algorithms.py\<close> each declare a class
  \<^verbatim>\<open>Process\<close> and a class \<^verbatim>\<open>Resource\<close>. The process of the deadlock module has the
  fields \<^verbatim>\<open>pid\<close>, \<^verbatim>\<open>max_resources\<close>, \<^verbatim>\<open>allocated_resources\<close> and \<^verbatim>\<open>need_resources\<close>;
  the process of the resource-allocation module has four more. The second record extends
  the first, so a function written over \<open>'a process_scheme\<close> accepts both, as the
  duck-typed Python does. Python integers are unbounded: \<open>int\<close>.

  Objects are modelled as values: every process owns its three vectors and every list
  position holds an object of its own (no list object is shared between two fields or
  two processes, and no object occurs twice in a list).
\<close>

record process =
  pid :: string
  max_resources :: "int list"
  allocated_resources :: "int list"
  need_resources :: "int list"

record ra_process = process +
  priority :: int
  arrival_time :: int
  wait_time :: int
  finish_time :: "int option"

record resource =
  rid :: string
  total_instances :: int
  available_instances :: int

text \<open>The exceptions the modelled code can raise, and the outcome of a call.\<close>

datatype py_error = IndexError | ValueError | AttributeError | RecursionError

datatype 'a outcome = Returned 'a | Raised py_error

text \<open>
  The message strings of the result dictionaries, one constructor per string template:
  \<^item> \<open>SystemSafe\<close>: \<^verbatim>\<open>System is in safe state\<close>
  \<^item> \<open>SystemNotSafe\<close>: \<^verbatim>\<open>System is not in safe state - potential deadlock\<close>
  \<^item> \<open>ProcessNotFound p\<close>: \<^verbatim>\<open>Process {p} not found\<close>
  \<^item> \<open>ExceedsMaximumClaim\<close>: \<^verbatim>\<open>Request exceeds maximum claim\<close>
  \<^item> \<open>ExceedsAvailable\<close>: \<^verbatim>\<open>Request exceeds available resources\<close>
  \<^item> \<open>RequestGranted\<close>: \<^verbatim>\<open>Request granted\<close>
  \<^item> \<open>WouldBeUnsafe\<close>: \<^verbatim>\<open>Request would lead to unsafe state\<close>
  \<^item> \<open>FcfsGranted p\<close>: \<^verbatim>\<open>Request by {p} granted\<close>
  \<^item> \<open>FcfsDenied p\<close>: \<^verbatim>\<open>Request by {p} denied - insufficient resources\<close>
  \<^item> \<open>PriorityGranted p n\<close>: \<^verbatim>\<open>Request by {p} (priority {n}) granted\<close>
  \<^item> \<open>PriorityDenied p n\<close>: \<^verbatim>\<open>Request by {p} (priority {n}) denied - insufficient resources\<close>
  \<^item> \<open>RRCompleted p\<close>: \<^verbatim>\<open>Request by {p} completed\<close>
  \<^item> \<open>RRPartial p\<close>: \<^verbatim>\<open>Request by {p} partially granted, re-queued\<close>
  \<^item> \<open>RRDenied p\<close>: \<^verbatim>\<open>Request by {p} denied, re-queued\<close>
  \<^item> \<open>NoProcesses\<close>: \<^verbatim>\<open>No processes\<close>
  \<^item> \<open>FairShareCompleted n\<close>: \<^verbatim>\<open>Fair share allocation completed for {n} processes\<close>
  \<^item> \<open>CannotRelease\<close>: \<^verbatim>\<open>Cannot release more than allocated\<close>
  \<^item> \<open>Released p\<close>: \<^verbatim>\<open>Resources released from {p}\<close>
  \<^item> \<open>DeadlockAmong s\<close>: \<^verbatim>\<open>Deadlock detected among processes: {s}\<close>
  \<^item> \<open>NoDeadlock\<close>: \<^verbatim>\<open>No deadlock detected\<close>
\<close>

datatype message =
    SystemSafe
  | SystemNotSafe
  | ProcessNotFound string
  | ExceedsMaximumClaim
  | ExceedsAvailable
  | RequestGranted
  | WouldBeUnsafe
  | FcfsGranted string
  | FcfsDenied string
  | PriorityGranted string int
  | PriorityDenied string int
  | RRCompleted string
  | RRPartial string
  | RRDenied string
  | NoProcesses
  | FairShareCompleted nat
  | CannotRelease
  | Released string
  | DeadlockAmong "string set"
  | NoDeadlock

text \<open>The dictionary \<^verbatim>\<open>{'safe', 'safe_sequence', 'message'}\<close> of \<^verbatim>\<open>bankers_algorithm\<close>,
  the dictionary \<^verbatim>\<open>{'granted', 'message'}\<close> of the admission functions and the
  dictionary \<^verbatim>\<open>{'success', 'message'}\<close> of \<^verbatim>\<open>deallocate_resources\<close>.\<close>

record safety_result =
  safe :: bool
  safe_sequence :: "string list option"
  safety_message :: message

record admission =
  granted :: bool
  admission_message :: message

record release_result =
  success :: bool
  release_message :: message

section \<open>Banker's algorithm\<close>

text \<open>
  \<^verbatim>\<open>all(need <= work[j] for j, need in enumerate(process.need_resources))\<close>:
  the generator stops at the first need that exceeds its entry of \<open>work\<close>, and
  \<^verbatim>\<open>work[j]\<close> raises \<^verbatim>\<open>IndexError\<close> when the need vector is longer than \<open>work\<close>.
\<close>

fun all_need_le_work :: "nat \<Rightarrow> int list \<Rightarrow> int list \<Rightarrow> bool outcome" where
  "all_need_le_work j [] work = Returned True"
| "all_need_le_work j (need # needs) work =
     (if j < length work
      then (if need \<le> work ! j then all_need_le_work (Suc j) needs work else Returned False)
      else Raised IndexError)"

text \<open>
  \<^verbatim>\<open>for j in range(len(work)): work[j] += process.allocated_resources[j]\<close>, the list of
  indices being \<open>[0..<length work]\<close>.
\<close>

fun add_allocated :: "nat list \<Rightarrow> int list \<Rightarrow> int list \<Rightarrow> int list outcome" where
  "add_allocated [] work alloc = Returned work"
| "add_allocated (j # js) work alloc =
     (if j < length alloc
      then add_allocated js (work[j := work ! j + alloc ! j]) alloc
      else Raised IndexError)"

text \<open>
  The \<^verbatim>\<open>for i, process in enumerate(processes)\<close> loop of
  \<^verbatim>\<open>DeadlockAlgorithms.bankers_algorithm\<close>: it returns the index of the process it
  selected with the updated \<open>work\<close> (the \<^verbatim>\<open>break\<close>), or \<open>None\<close> when the loop ends with
  \<^verbatim>\<open>found\<close> still false.
\<close>

fun D_scan :: "nat \<Rightarrow> 'a process_scheme list \<Rightarrow> bool list \<Rightarrow> int list
    \<Rightarrow> (nat \<times> int list) option outcome" where
  "D_scan i [] finish work = Returned None"
| "D_scan i (p # ps) finish work =
     (if \<not> finish ! i then
        (case all_need_le_work 0 (need_resources p) work of
           Raised e \<Rightarrow> Raised e
         | Returned True \<Rightarrow>
             (case add_allocated [0..<length work] work (allocated_resources p) of
                Raised e \<Rightarrow> Raised e
              | Returned work' \<Rightarrow> Returned (Some (i, work')))
         | Returned False \<Rightarrow> D_scan (Suc i) ps finish work)
      else D_scan (Suc i) ps finish work)"

text \<open>The \<^verbatim>\<open>while len(safe_sequence) < len(processes)\<close> loop.\<close>

function D_bankers_loop :: "'a process_scheme list \<Rightarrow> int list \<Rightarrow> bool list \<Rightarrow> string list
    \<Rightarrow> safety_result outcome" where
  "D_bankers_loop processes work finish safe_seq =
     (if length safe_seq < length processes then
        (case D_scan 0 processes finish work of
           Raised e \<Rightarrow> Raised e
         | Returned None \<Rightarrow>
             Returned \<lparr>safe = False, safe_sequence = None, safety_message = SystemNotSafe\<rparr>
         | Returned (Some (i, work')) \<Rightarrow>
             D_bankers_loop processes work' (finish[i := True]) (safe_seq @ [pid (processes ! i)]))
      else Returned \<lparr>safe = True, safe_sequence = Some safe_seq, safety_message = SystemSafe\<rparr>)"
  by pat_completeness auto
termination
  by (relation "measure (\<lambda>(processes, work, finish, safe_seq). length processes - length safe_seq)")
     auto

definition D_bankers_algorithm :: "'a process_scheme list \<Rightarrow> resource list \<Rightarrow> safety_result outcome" where
  "D_bankers_algorithm processes resources =
     D_bankers_loop processes (map available_instances resources)
       (replicate (length processes) False) []"

text \<open>The same three parts of \<^verbatim>\<open>ResourceAllocationAlgorithms.bankers_algorithm\<close>.\<close>

fun RA_scan :: "nat \<Rightarrow> 'a process_scheme list \<Rightarrow> bool list \<Rightarrow> int list
    \<Rightarrow> (nat \<times> int list) option outcome" where
  "RA_scan i [] finish work = Returned None"
| "RA_scan i (p # ps) finish work =
     (if \<not> finish ! i then
        (case all_need_le_work 0 (need_resources p) work of
           Raised e \<Rightarrow> Raised e
         | Returned True \<Rightarrow>
             (case add_allocated [0..<length work] work (allocated_resources p) of
                Raised e \<Rightarrow> Raised e
              | Returned work' \<Rightarrow> Returned (Some (i, work')))
         | Returned False \<Rightarrow> RA_scan (Suc i) ps finish work)
      else RA_scan (Suc i) ps finish work)"

function RA_bankers_loop :: "'a process_scheme list \<Rightarrow> int list \<Rightarrow> bool list \<Rightarrow> string list
    \<Rightarrow> safety_result outcome" where
  "RA_bankers_loop processes work finish safe_seq =
     (if length safe_seq < length processes then
        (case RA_scan 0 processes finish work of
           Raised e \<Rightarrow> Raised e
         | Returned None \<Rightarrow>
             Returned \<lparr>safe = False, safe_sequence = None, safety_message = SystemNotSafe\<rparr>
         | Returned (Some (i, work')) \<Rightarrow>
             RA_bankers_loop processes work' (finish[i := True]) (safe_seq @ [pid (processes ! i)]))
      else Returned \<lparr>safe = True, safe_sequence = Some safe_seq, safety_message = SystemSafe\<rparr>)"
  by pat_completeness auto
termination
  by (relation "measure (\<lambda>(processes, work, finish, safe_seq). length processes - length safe_seq)")
     auto

definition RA_bankers_algorithm :: "'a process_scheme list \<Rightarrow> resource list \<Rightarrow> safety_result outcome" where
  "RA_bankers_algorithm processes resources =
     RA_bankers_loop processes (map available_instances resources)
       (replicate (length processes) False) []"

section \<open>Single-request admission\<close>

text \<open>
  \<^verbatim>\<open>next((p for p in processes if p.pid == process_id), None)\<close> yields the first
  process with the given pid. The model yields its position, so that the mutation of
  that object can be written back to the list. (A \<^verbatim>\<open>Process\<close> object defines neither
  \<^verbatim>\<open>__bool__\<close> nor \<^verbatim>\<open>__len__\<close>, so \<^verbatim>\<open>not process\<close> holds for \<^verbatim>\<open>None\<close> only.)
\<close>

fun index_of_pid :: "string \<Rightarrow> 'a process_scheme list \<Rightarrow> nat option" where
  "index_of_pid x [] = None"
| "index_of_pid x (p # ps) = (if pid p = x then Some 0 else map_option Suc (index_of_pid x ps))"

text \<open>\<^verbatim>\<open>any(req > bound for req, bound in zip(request, bounds))\<close> and
  \<^verbatim>\<open>all(req <= avail for req, avail in zip(request, avails))\<close>; \<^verbatim>\<open>zip\<close> stops at the
  shorter list.\<close>

definition any_exceeds :: "int list \<Rightarrow> int list \<Rightarrow> bool" where
  "any_exceeds request bounds = list_ex (\<lambda>(req, bound). req > bound) (zip request bounds)"

definition can_grant :: "int list \<Rightarrow> resource list \<Rightarrow> bool" where
  "can_grant request resources =
     list_all (\<lambda>(req, avail). req \<le> avail) (zip request (map available_instances resources))"

text \<open>
  The allocation loop that \<^verbatim>\<open>simulate_request\<close>, \<^verbatim>\<open>simulate_request_bankers\<close>,
  \<^verbatim>\<open>fcfs_allocation\<close> and \<^verbatim>\<open>priority_allocation\<close> all contain:
  \<^verbatim>\<open>
  for i, req in enumerate(request):
      process.allocated_resources[i] += req
      process.need_resources[i] -= req
      resources[i].available_instances -= req
  \<close>
  Each of the three statements raises \<^verbatim>\<open>IndexError\<close> when \<open>i\<close> is out of range, and
  the statements before it have taken effect by then: the loop returns the error, if
  any, together with the process and the resources as they are at that moment.
\<close>

fun allocate_loop :: "nat \<Rightarrow> int list \<Rightarrow> 'a process_scheme \<Rightarrow> resource list
    \<Rightarrow> py_error option \<times> 'a process_scheme \<times> resource list" where
  "allocate_loop i [] p rs = (None, p, rs)"
| "allocate_loop i (req # reqs) p rs =
     (if i < length (allocated_resources p) then
        (let p1 = p\<lparr>allocated_resources :=
                     (allocated_resources p)[i := allocated_resources p ! i + req]\<rparr>
         in if i < length (need_resources p1) then
              (let p2 = p1\<lparr>need_resources := (need_resources p1)[i := need_resources p1 ! i - req]\<rparr>
               in if i < length rs then
                    allocate_loop (Suc i) reqs p2
                      (rs[i := (rs ! i)\<lparr>available_instances := available_instances (rs ! i) - req\<rparr>])
                  else (Some IndexError, p2, rs))
            else (Some IndexError, p1, rs))
      else (Some IndexError, p, rs))"

text \<open>
  \<^verbatim>\<open>DeadlockAlgorithms.simulate_request\<close>. The result is the outcome of the call with
  the live \<open>processes\<close> and \<open>resources\<close> as the call leaves them. The deep copies are
  the values themselves; \<open>temp_proc\<close> sits in the copy at the position the process has
  in the live list.
\<close>

definition D_simulate_request :: "'a process_scheme list \<Rightarrow> resource list \<Rightarrow> string \<Rightarrow> int list
    \<Rightarrow> admission outcome \<times> 'a process_scheme list \<times> resource list" where
  "D_simulate_request processes resources process_id request =
     (case index_of_pid process_id processes of
        None \<Rightarrow>
          (Returned \<lparr>granted = False, admission_message = ProcessNotFound process_id\<rparr>,
           processes, resources)
      | Some k \<Rightarrow>
          if any_exceeds request (need_resources (processes ! k)) then
            (Returned \<lparr>granted = False, admission_message = ExceedsMaximumClaim\<rparr>,
             processes, resources)
          else if any_exceeds request (map available_instances resources) then
            (Returned \<lparr>granted = False, admission_message = ExceedsAvailable\<rparr>,
             processes, resources)
          else
            (case allocate_loop 0 request (processes ! k) resources of
               (Some e, temp_proc, temp_resources) \<Rightarrow> (Raised e, processes, resources)
             | (None, temp_proc, temp_resources) \<Rightarrow>
                 (case D_bankers_algorithm (processes[k := temp_proc]) temp_resources of
                    Raised e \<Rightarrow> (Raised e, processes, resources)
                  | Returned result \<Rightarrow>
                      if safe result then
                        (case allocate_loop 0 request (processes ! k) resources of
                           (Some e, p', rs') \<Rightarrow> (Raised e, processes[k := p'], rs')
                         | (None, p', rs') \<Rightarrow>
                             (Returned \<lparr>granted = True, admission_message = RequestGranted\<rparr>,
                              processes[k := p'], rs'))
                      else
                        (Returned \<lparr>granted = False, admission_message = WouldBeUnsafe\<rparr>,
                         processes, resources))))"

text \<open>\<^verbatim>\<open>ResourceAllocationAlgorithms.simulate_request_bankers\<close>.\<close>

definition RA_simulate_request_bankers :: "'a process_scheme list \<Rightarrow> resource list \<Rightarrow> string
    \<Rightarrow> int list \<Rightarrow> admission outcome \<times> 'a process_scheme list \<times> resource list" where
  "RA_simulate_request_bankers processes resources process_id request =
     (case index_of_pid process_id processes of
        None \<Rightarrow>
          (Returned \<lparr>granted = False, admission_message = ProcessNotFound process_id\<rparr>,
           processes, resources)
      | Some k \<Rightarrow>
          if any_exceeds request (need_resources (processes ! k)) then
            (Returned \<lparr>granted = False, admission_message = ExceedsMaximumClaim\<rparr>,
             processes, resources)
          else if any_exceeds request (map available_instances resources) then
            (Returned \<lparr>granted = False, admission_message = ExceedsAvailable\<rparr>,
             processes, resources)
          else
            (case allocate_loop 0 request (processes ! k) resources of
               (Some e, temp_proc, temp_resources) \<Rightarrow> (Raised e, processes, resources)
             | (None, temp_proc, temp_resources) \<Rightarrow>
                 (case RA_bankers_algorithm (processes[k := temp_proc]) temp_resources of
                    Raised e \<Rightarrow> (Raised e, processes, resources)
                  | Returned result \<Rightarrow>
                      if safe result then
                        (case allocate_loop 0 request (processes ! k) resources of
                           (Some e, p', rs') \<Rightarrow> (Raised e, processes[k := p'], rs')
                         | (None, p', rs') \<Rightarrow>
                             (Returned \<lparr>granted = True, admission_message = RequestGranted\<rparr>,
                              processes[k := p'], rs'))
                      else
                        (Returned \<lparr>granted = False, admission_message = WouldBeUnsafe\<rparr>,
                         processes, resources))))"

section \<open>Allocation policies\<close>

text \<open>
  \<^verbatim>\<open>fcfs_allocation\<close>. \<^verbatim>\<open>sorted(processes, key=lambda p: p.arrival_time)\<close> is a stable
  sort of references to the live objects; the model sorts their positions, and the
  lookup \<^verbatim>\<open>next((p for p in sorted_processes if p.pid == pid), None)\<close> yields the first
  position, in that order, whose process has the pid. Neither \<open>pid\<close> nor
  \<open>arrival_time\<close> changes during the loop. The loop runs over \<open>requests\<close> in the order
  of the batch.
\<close>

fun fcfs_loop :: "nat list \<Rightarrow> (string \<times> int list) list \<Rightarrow> 'a ra_process_scheme list
    \<Rightarrow> resource list \<Rightarrow> admission list
    \<Rightarrow> admission list outcome \<times> 'a ra_process_scheme list \<times> resource list" where
  "fcfs_loop sorted_processes [] processes resources results =
     (Returned results, processes, resources)"
| "fcfs_loop sorted_processes ((rpid, request) # requests) processes resources results =
     (case find (\<lambda>k. pid (processes ! k) = rpid) sorted_processes of
        None \<Rightarrow>
          fcfs_loop sorted_processes requests processes resources
            (results @ [\<lparr>granted = False, admission_message = ProcessNotFound rpid\<rparr>])
      | Some k \<Rightarrow>
          if can_grant request resources then
            (case allocate_loop 0 request (processes ! k) resources of
               (Some e, p', rs') \<Rightarrow> (Raised e, processes[k := p'], rs')
             | (None, p', rs') \<Rightarrow>
                 fcfs_loop sorted_processes requests (processes[k := p']) rs'
                   (results @ [\<lparr>granted = True, admission_message = FcfsGranted rpid\<rparr>]))
          else
            fcfs_loop sorted_processes requests processes resources
              (results @ [\<lparr>granted = False, admission_message = FcfsDenied rpid\<rparr>]))"

definition fcfs_allocation :: "'a ra_process_scheme list \<Rightarrow> resource list
    \<Rightarrow> (string \<times> int list) list
    \<Rightarrow> admission list outcome \<times> 'a ra_process_scheme list \<times> resource list" where
  "fcfs_allocation processes resources requests =
     fcfs_loop (sort_key (\<lambda>k. arrival_time (processes ! k)) [0..<length processes])
       requests processes resources []"

text \<open>
  \<^verbatim>\<open>priority_allocation\<close>. The first loop keeps the requests whose pid is known, as
  triples \<^verbatim>\<open>(process.priority, pid, request)\<close>; \<^verbatim>\<open>sort(reverse=True)\<close> puts the triples
  in descending order (Python compares tuples, strings and lists lexicographically,
  as the orders of \<open>Product_Lexorder\<close>, \<open>List_Lexorder\<close> and \<open>Char_ord\<close> do; triples
  that compare equal are equal values, so their relative order cannot be observed).
\<close>

definition priority_requests :: "'a ra_process_scheme list \<Rightarrow> (string \<times> int list) list
    \<Rightarrow> (int \<times> string \<times> int list) list" where
  "priority_requests processes requests =
     rev (sort (List.map_filter
       (\<lambda>(rpid, request). case index_of_pid rpid processes of
            None \<Rightarrow> None
          | Some k \<Rightarrow> Some (priority (processes ! k), rpid, request)) requests))"

fun priority_loop :: "(int \<times> string \<times> int list) list \<Rightarrow> 'a ra_process_scheme list
    \<Rightarrow> resource list \<Rightarrow> admission list
    \<Rightarrow> admission list outcome \<times> 'a ra_process_scheme list \<times> resource list" where
  "priority_loop [] processes resources results = (Returned results, processes, resources)"
| "priority_loop ((prio, rpid, request) # rest) processes resources results =
     (case index_of_pid rpid processes of
        None \<Rightarrow> (Raised AttributeError, processes, resources)
      | Some k \<Rightarrow>
          if can_grant request resources then
            (case allocate_loop 0 request (processes ! k) resources of
               (Some e, p', rs') \<Rightarrow> (Raised e, processes[k := p'], rs')
             | (None, p', rs') \<Rightarrow>
                 priority_loop rest (processes[k := p']) rs'
                   (results @ [\<lparr>granted = True,
                      admission_message = PriorityGranted rpid (priority p')\<rparr>]))
          else
            priority_loop rest processes resources
              (results @ [\<lparr>granted = False,
                 admission_message = PriorityDenied rpid (priority (processes ! k))\<rparr>]))"

definition priority_allocation :: "'a ra_process_scheme list \<Rightarrow> resource list
    \<Rightarrow> (string \<times> int list) list
    \<Rightarrow> admission list outcome \<times> 'a ra_process_scheme list \<times> resource list" where
  "priority_allocation processes resources requests =
     priority_loop (priority_requests processes requests) processes resources []"

text \<open>
  \<^verbatim>\<open>round_robin_allocation\<close>. The \<^verbatim>\<open>while queue\<close> loop has no bound, so it is a partial
  function: \<open>None\<close> is a call that never returns. \<^verbatim>\<open>max(request)\<close> raises
  \<^verbatim>\<open>ValueError\<close> on an empty request. The allocation loop of this policy adds
  \<^verbatim>\<open>min(req, allocated_time)\<close> where the other policies add \<^verbatim>\<open>req\<close>.
\<close>

partial_function (option) rr_loop :: "int \<Rightarrow> (string \<times> int list) list
    \<Rightarrow> 'a process_scheme list \<Rightarrow> resource list \<Rightarrow> admission list
    \<Rightarrow> (admission list outcome \<times> 'a process_scheme list \<times> resource list) option" where
  "rr_loop time_quantum queue processes resources results =
     (case queue of
        [] \<Rightarrow> Some (Returned results, processes, resources)
      | (rpid, request) # queue' \<Rightarrow>
          (case index_of_pid rpid processes of
             None \<Rightarrow>
               rr_loop time_quantum queue' processes resources
                 (results @ [\<lparr>granted = False, admission_message = ProcessNotFound rpid\<rparr>])
           | Some k \<Rightarrow>
               if can_grant request resources then
                 (if request = [] then Some (Raised ValueError, processes, resources)
                  else
                    (let allocated_time = min time_quantum (Max (set request)) in
                     case allocate_loop 0 (map (\<lambda>req. min req allocated_time) request)
                            (processes ! k) resources of
                       (Some e, p', rs') \<Rightarrow> Some (Raised e, processes[k := p'], rs')
                     | (None, p', rs') \<Rightarrow>
                         if list_all (\<lambda>need. need = 0) (need_resources p') then
                           rr_loop time_quantum queue' (processes[k := p']) rs'
                             (results @ [\<lparr>granted = True, admission_message = RRCompleted rpid\<rparr>])
                         else
                           rr_loop time_quantum
                             (queue' @ [(rpid, map (max 0) (need_resources p'))])
                             (processes[k := p']) rs'
                             (results @ [\<lparr>granted = True, admission_message = RRPartial rpid\<rparr>])))
               else
                 rr_loop time_quantum (queue' @ [(rpid, request)]) processes resources
                   (results @ [\<lparr>granted = False, admission_message = RRDenied rpid\<rparr>])))"

definition round_robin_allocation :: "'a process_scheme list \<Rightarrow> resource list
    \<Rightarrow> (string \<times> int list) list \<Rightarrow> int
    \<Rightarrow> (admission list outcome \<times> 'a process_scheme list \<times> resource list) option" where
  "round_robin_allocation processes resources requests time_quantum =
     rr_loop time_quantum requests processes resources []"

text \<open>
  \<^verbatim>\<open>fair_share_allocation\<close>. The inner loop over the processes, for the resource at
  position \<open>i\<close>: \<^verbatim>\<open>process.max_resources[i]\<close>, \<^verbatim>\<open>process.allocated_resources[i] = alloc\<close>
  and \<^verbatim>\<open>process.need_resources[i] = ...\<close> raise \<^verbatim>\<open>IndexError\<close> out of range. The dictionary
  \<open>allocations\<close> is a map; its entry for a pid is created with \<^verbatim>\<open>[0] * len(resources)\<close>.
\<close>

fun fair_share_inner :: "nat \<Rightarrow> int \<Rightarrow> int \<Rightarrow> nat list \<Rightarrow> 'a process_scheme list
    \<Rightarrow> resource list \<Rightarrow> (string \<rightharpoonup> int list)
    \<Rightarrow> py_error option \<times> 'a process_scheme list \<times> resource list \<times> (string \<rightharpoonup> int list)" where
  "fair_share_inner i fair_share remainder [] processes resources allocations =
     (None, processes, resources, allocations)"
| "fair_share_inner i fair_share remainder (j # js) processes resources allocations =
     (let process = processes ! j;
          alloc0 = fair_share + (if int j < remainder then 1 else 0)
      in if i < length (max_resources process) then
           (let alloc = min alloc0 (max_resources process ! i);
                allocations1 = (case allocations (pid process) of
                                  None \<Rightarrow> allocations(pid process \<mapsto> replicate (length resources) 0)
                                | Some v \<Rightarrow> allocations);
                allocations2 = (case allocations1 (pid process) of
                                  None \<Rightarrow> allocations1
                                | Some v \<Rightarrow> allocations1(pid process \<mapsto> v[i := alloc]))
            in if i < length (allocated_resources process) then
                 (let p1 = process\<lparr>allocated_resources := (allocated_resources process)[i := alloc]\<rparr>
                  in if i < length (need_resources p1) then
                       (let p2 = p1\<lparr>need_resources :=
                                      (need_resources p1)[i := max_resources p1 ! i - alloc]\<rparr>
                        in fair_share_inner i fair_share remainder js (processes[j := p2])
                             (resources[i := (resources ! i)\<lparr>available_instances :=
                                available_instances (resources ! i) - alloc\<rparr>])
                             allocations2)
                     else (Some IndexError, processes[j := p1], resources, allocations2))
               else (Some IndexError, processes, resources, allocations2))
         else (Some IndexError, processes, resources, allocations))"

text \<open>The outer loop \<^verbatim>\<open>for i, resource in enumerate(resources)\<close>, over the positions.\<close>

fun fair_share_outer :: "nat list \<Rightarrow> 'a process_scheme list \<Rightarrow> resource list
    \<Rightarrow> (string \<rightharpoonup> int list)
    \<Rightarrow> py_error option \<times> 'a process_scheme list \<times> resource list \<times> (string \<rightharpoonup> int list)" where
  "fair_share_outer [] processes resources allocations =
     (None, processes, resources, allocations)"
| "fair_share_outer (i # is) processes resources allocations =
     (let num_processes = int (length processes);
          fair_share = total_instances (resources ! i) div num_processes;
          remainder = total_instances (resources ! i) mod num_processes
      in case fair_share_inner i fair_share remainder [0..<length processes]
                processes resources allocations of
           (Some e, ps', rs', al') \<Rightarrow> (Some e, ps', rs', al')
         | (None, ps', rs', al') \<Rightarrow> fair_share_outer is ps' rs' al')"

definition fair_share_allocation :: "'a process_scheme list \<Rightarrow> resource list
    \<Rightarrow> ((string \<rightharpoonup> int list) \<times> message) outcome \<times> 'a process_scheme list \<times> resource list" where
  "fair_share_allocation processes resources =
     (if processes = [] then (Returned (Map.empty, NoProcesses), processes, resources)
      else
        (case fair_share_outer [0..<length resources] processes resources Map.empty of
           (Some e, ps', rs', al') \<Rightarrow> (Raised e, ps', rs')
         | (None, ps', rs', al') \<Rightarrow>
             (Returned (al', FairShareCompleted (length processes)), ps', rs')))"

text \<open>
  \<^verbatim>\<open>deallocate_resources\<close> and its loop
  \<^verbatim>\<open>
  for i, rel in enumerate(release):
      process.allocated_resources[i] -= rel
      process.need_resources[i] += rel
      resources[i].available_instances += rel
  \<close>
\<close>

fun release_loop :: "nat \<Rightarrow> int list \<Rightarrow> 'a process_scheme \<Rightarrow> resource list
    \<Rightarrow> py_error option \<times> 'a process_scheme \<times> resource list" where
  "release_loop i [] p rs = (None, p, rs)"
| "release_loop i (rel # rels) p rs =
     (if i < length (allocated_resources p) then
        (let p1 = p\<lparr>allocated_resources :=
                     (allocated_resources p)[i := allocated_resources p ! i - rel]\<rparr>
         in if i < length (need_resources p1) then
              (let p2 = p1\<lparr>need_resources := (need_resources p1)[i := need_resources p1 ! i + rel]\<rparr>
               in if i < length rs then
                    release_loop (Suc i) rels p2
                      (rs[i := (rs ! i)\<lparr>available_instances := available_instances (rs ! i) + rel\<rparr>])
                  else (Some IndexError, p2, rs))
            else (Some IndexError, p1, rs))
      else (Some IndexError, p, rs))"

definition deallocate_resources :: "'a process_scheme list \<Rightarrow> resource list \<Rightarrow> string \<Rightarrow> int list
    \<Rightarrow> release_result outcome \<times> 'a process_scheme list \<times> resource list" where
  "deallocate_resources processes resources process_id release =
     (case index_of_pid process_id processes of
        None \<Rightarrow>
          (Returned \<lparr>success = False, release_message = ProcessNotFound process_id\<rparr>,
           processes, resources)
      | Some k \<Rightarrow>
          if any_exceeds release (allocated_resources (processes ! k)) then
            (Returned \<lparr>success = False, release_message = CannotRelease\<rparr>, processes, resources)
          else
            (case release_loop 0 release (processes ! k) resources of
               (Some e, p', rs') \<Rightarrow> (Raised e, processes[k := p'], rs')
             | (None, p', rs') \<Rightarrow>
                 (Returned \<lparr>success = True, release_message = Released process_id\<rparr>,
                  processes[k := p'], rs')))"

section \<open>Deadlock detection on a wait-for graph\<close>

text \<open>
  The dictionary \<^verbatim>\<open>wait_for_graph\<close> is an association list in insertion order (Python
  iterates a dictionary in that order); \<^verbatim>\<open>wait_for_graph.get(node, [])\<close> is the lookup
  with the empty list as default. \<open>visited\<close> and \<open>rec_stack\<close> are Python sets.
\<close>

type_synonym wait_for_graph = "(string \<times> string list) list"

definition neighbors :: "wait_for_graph \<Rightarrow> string \<Rightarrow> string list" where
  "neighbors g node = (case map_of g node of None \<Rightarrow> [] | Some ns \<Rightarrow> ns)"

text \<open>
  The loop \<^verbatim>\<open>for neighbor in wait_for_graph.get(node, [])\<close> inside \<^verbatim>\<open>has_cycle\<close>; \<open>call\<close>
  is the recursive call. The result \<open>(True, _)\<close> is a \<^verbatim>\<open>return True\<close> from inside the
  loop, \<open>(False, _)\<close> is the loop running to its end.
\<close>

fun for_neighbors :: "(string \<Rightarrow> string set \<times> string set \<Rightarrow> (bool \<times> string set \<times> string set) outcome)
    \<Rightarrow> string list \<Rightarrow> string set \<times> string set \<Rightarrow> (bool \<times> string set \<times> string set) outcome" where
  "for_neighbors call [] (visited, rec_stack) = Returned (False, visited, rec_stack)"
| "for_neighbors call (neighbor # rest) (visited, rec_stack) =
     (if neighbor \<notin> visited then
        (case call neighbor (visited, rec_stack) of
           Raised e \<Rightarrow> Raised e
         | Returned (True, st) \<Rightarrow> Returned (True, st)
         | Returned (False, st) \<Rightarrow> for_neighbors call rest st)
      else if neighbor \<in> rec_stack then Returned (True, visited, rec_stack)
      else for_neighbors call rest (visited, rec_stack))"

text \<open>
  The nested function \<^verbatim>\<open>has_cycle(node, visited, rec_stack)\<close>; it returns its Boolean
  with the two sets as it leaves them. The first argument is the number of nested calls
  the interpreter still allows (Python's recursion limit): when it is used up the call
  raises \<^verbatim>\<open>RecursionError\<close>.
\<close>

fun has_cycle :: "nat \<Rightarrow> wait_for_graph \<Rightarrow> string \<Rightarrow> string set \<times> string set
    \<Rightarrow> (bool \<times> string set \<times> string set) outcome" where
  "has_cycle 0 g node st = Raised RecursionError"
| "has_cycle (Suc depth) g node (visited, rec_stack) =
     (case for_neighbors (has_cycle depth g) (neighbors g node)
             (insert node visited, insert node rec_stack) of
        Raised e \<Rightarrow> Raised e
      | Returned (True, st) \<Rightarrow> Returned (True, st)
      | Returned (False, visited', rec_stack') \<Rightarrow> Returned (False, visited', rec_stack' - {node}))"

text \<open>
  The loop \<^verbatim>\<open>for process in wait_for_graph\<close> of \<^verbatim>\<open>detect_deadlock_wait_for_graph\<close>; its
  value is \<open>deadlocked_processes\<close> at the end of the loop. \<^verbatim>\<open>list(rec_stack)\<close> lists a
  Python set, in an order the language does not fix: the model keeps the set.
\<close>

fun detect_loop :: "nat \<Rightarrow> wait_for_graph \<Rightarrow> string list \<Rightarrow> string set \<times> string set
    \<Rightarrow> string set outcome" where
  "detect_loop depth g [] (visited, rec_stack) = Returned {}"
| "detect_loop depth g (process # rest) (visited, rec_stack) =
     (if process \<notin> visited then
        (case has_cycle depth g process (visited, rec_stack) of
           Raised e \<Rightarrow> Raised e
         | Returned (True, visited', rec_stack') \<Rightarrow> Returned rec_stack'
         | Returned (False, st) \<Rightarrow> detect_loop depth g rest st)
      else detect_loop depth g rest (visited, rec_stack))"

record deadlock_result =
  deadlock_detected :: bool
  deadlocked_processes :: "string set"
  deadlock_message :: message

definition detect_deadlock_wait_for_graph :: "nat \<Rightarrow> wait_for_graph \<Rightarrow> deadlock_result outcome" where
  "detect_deadlock_wait_for_graph depth g =
     (case detect_loop depth g (map fst g) ({}, {}) of
        Raised e \<Rightarrow> Raised e
      | Returned deadlocked \<Rightarrow>
          Returned \<lparr>deadlock_detected = (deadlocked \<noteq> {}),
                    deadlocked_processes = deadlocked,
                    deadlock_message = (if deadlocked \<noteq> {} then DeadlockAmong deadlocked
                                        else NoDeadlock)\<rparr>)"

section \<open>Concrete ledgers\<close>

text \<open>
  The classic state of five processes \<open>P0\<close> .. \<open>P4\<close> and three resource types with the
  totals 10, 5 and 7. The allocations sum to 7, 2 and 5, so 3, 3 and 2 instances are
  available.
\<close>

definition scenario_A :: "process list" where
  "scenario_A =
     [\<lparr>pid = ''P0'', max_resources = [7, 5, 3], allocated_resources = [0, 1, 0],
        need_resources = [7, 4, 3]\<rparr>,
      \<lparr>pid = ''P1'', max_resources = [3, 2, 2], allocated_resources = [2, 0, 0],
        need_resources = [1, 2, 2]\<rparr>,
      \<lparr>pid = ''P2'', max_resources = [9, 0, 2], allocated_resources = [3, 0, 2],
        need_resources = [6, 0, 0]\<rparr>,
      \<lparr>pid = ''P3'', max_resources = [2, 2, 2], allocated_resources = [2, 1, 1],
        need_resources = [0, 1, 1]\<rparr>,
      \<lparr>pid = ''P4'', max_resources = [4, 3, 3], allocated_resources = [0, 0, 2],
        need_resources = [4, 3, 1]\<rparr>]"

definition scenario_A_resources :: "resource list" where
  "scenario_A_resources =
     [\<lparr>rid = ''R0'', total_instances = 10, available_instances = 3\<rparr>,
      \<lparr>rid = ''R1'', total_instances = 5, available_instances = 3\<rparr>,
      \<lparr>rid = ''R2'', total_instances = 7, available_instances = 2\<rparr>]"

text \<open>The state after the request \<open>[1, 0, 2]\<close> of \<open>P1\<close> has been applied.\<close>

definition scenario_B_processes :: "process list" where
  "scenario_B_processes =
     scenario_A[1 := \<lparr>pid = ''P1'', max_resources = [3, 2, 2], allocated_resources = [3, 0, 2],
                       need_resources = [0, 2, 0]\<rparr>]"

definition scenario_B_resources :: "resource list" where
  "scenario_B_resources =
     [\<lparr>rid = ''R0'', total_instances = 10, available_instances = 2\<rparr>,
      \<lparr>rid = ''R1'', total_instances = 5, available_instances = 3\<rparr>,
      \<lparr>rid = ''R2'', total_instances = 7, available_instances = 0\<rparr>]"

text \<open>
  Two processes of the resource-allocation module and one resource with a single
  instance: \<open>P1\<close> arrived at time 5, \<open>P2\<close> at time 0. In the batch the request of \<open>P1\<close>
  comes first.
\<close>

definition fcfs_processes :: "ra_process list" where
  "fcfs_processes =
     [\<lparr>pid = ''P1'', max_resources = [1], allocated_resources = [0], need_resources = [1],
        priority = 0, arrival_time = 5, wait_time = 0, finish_time = None\<rparr>,
      \<lparr>pid = ''P2'', max_resources = [1], allocated_resources = [0], need_resources = [1],
        priority = 0, arrival_time = 0, wait_time = 0, finish_time = None\<rparr>]"

definition fcfs_resources :: "resource list" where
  "fcfs_resources = [\<lparr>rid = ''R1'', total_instances = 1, available_instances = 1\<rparr>]"

definition fcfs_requests :: "(string \<times> int list) list" where
  "fcfs_requests = [(''P1'', [1]), (''P2'', [1])]"

text \<open>
  The conservation invariant of the ledger: for every resource position \<open>i\<close>, the
  available instances plus the instances allocated to the processes are the total.
\<close>

definition conservation :: "'a process_scheme list \<Rightarrow> resource list \<Rightarrow> bool" where
  "conservation processes resources =
     list_all (\<lambda>i. available_instances (resources ! i)
                      + sum_list (map (\<lambda>p. allocated_resources p ! i) processes)
                    = total_instances (resources ! i))
       [0..<length resources]"

text \<open>
  A ledger in which allocations have been made: two processes hold one instance each
  of a resource with four instances, and two instances are available.
\<close>

definition fair_processes :: "process list" where
  "fair_processes =
     [\<lparr>pid = ''P1'', max_resources = [4], allocated_resources = [1], need_resources = [3]\<rparr>,
      \<lparr>pid = ''P2'', max_resources = [4], allocated_resources = [1], need_resources = [3]\<rparr>]"

definition fair_resources :: "resource list" where
  "fair_resources = [\<lparr>rid = ''R1'', total_instances = 4, available_instances = 2\<rparr>]"

text \<open>A process with the maximum demand 1 and a resource with five instances.\<close>

definition small_claim_processes :: "ra_process list" where
  "small_claim_processes =
     [\<lparr>pid = ''P1'', max_resources = [1], allocated_resources = [0], need_resources = [1],
        priority = 0, arrival_time = 0, wait_time = 0, finish_time = None\<rparr>]"

definition five_resources :: "resource list" where
  "five_resources = [\<lparr>rid = ''R1'', total_instances = 5, available_instances = 5\<rparr>]"

text \<open>Two processes of different priority that compete for one instance.\<close>

definition priority_processes :: "ra_process list" where
  "priority_processes =
     [\<lparr>pid = ''P1'', max_resources = [1], allocated_resources = [0], need_resources = [1],
        priority = 1, arrival_time = 0, wait_time = 0, finish_time = None\<rparr>,
      \<lparr>pid = ''P2'', max_resources = [1], allocated_resources = [0], need_resources = [1],
        priority = 5, arrival_time = 1, wait_time = 0, finish_time = None\<rparr>]"

text \<open>A process with the maximum demand 2, a resource with two instances and a resource
  with one instance.\<close>

definition rr_processes :: "process list" where
  "rr_processes =
     [\<lparr>pid = ''P1'', max_resources = [2], allocated_resources = [0], need_resources = [2]\<rparr>]"

definition two_resources :: "resource list" where
  "two_resources = [\<lparr>rid = ''R1'', total_instances = 2, available_instances = 2\<rparr>]"

definition one_resource :: "resource list" where
  "one_resource = [\<lparr>rid = ''R1'', total_instances = 1, available_instances = 1\<rparr>]"

definition rr_two_processes :: "process list" where
  "rr_two_processes =
     [\<lparr>pid = ''P1'', max_resources = [2], allocated_resources = [0], need_resources = [2]\<rparr>,
      \<lparr>pid = ''P2'', max_resources = [3], allocated_resources = [0], need_resources = [3]\<rparr>]"

section \<open>Notions of the specification\<close>

text \<open>
  Applying a request vector to a vector of the ledger, position by position: the
  positions that the request does not reach are left as they are. With \<open>(+)\<close> this is
  the new allocation, with \<open>(-)\<close> the new need, with \<open>sub_available\<close> the new list of
  resources.
\<close>

fun apply_vec :: "('a \<Rightarrow> int \<Rightarrow> 'a) \<Rightarrow> 'a list \<Rightarrow> int list \<Rightarrow> 'a list" where
  "apply_vec f [] reqs = []"
| "apply_vec f (x # xs) [] = x # xs"
| "apply_vec f (x # xs) (r # rs) = f x r # apply_vec f xs rs"

definition sub_available :: "resource \<Rightarrow> int \<Rightarrow> resource" where
  "sub_available r q = r\<lparr>available_instances := available_instances r - q\<rparr>"

text \<open>The ledger after the request has been applied to the process at position \<open>k\<close>.\<close>

definition request_applied :: "'a process_scheme list \<Rightarrow> resource list \<Rightarrow> nat \<Rightarrow> int list
    \<Rightarrow> 'a process_scheme list \<times> resource list" where
  "request_applied ps rs k request =
     (ps[k := (ps ! k)\<lparr>allocated_resources := apply_vec (+) (allocated_resources (ps ! k)) request,
                       need_resources := apply_vec (-) (need_resources (ps ! k)) request\<rparr>],
      apply_vec sub_available rs request)"

text \<open>A call has granted the request when it returned a result whose \<^verbatim>\<open>granted\<close> is true;
  every other result, and an exception, is a denial.\<close>

definition is_granted :: "admission outcome \<Rightarrow> bool" where
  "is_granted out = (case out of Returned r \<Rightarrow> granted r | Raised e \<Rightarrow> False)"

text \<open>
  The two parts of the need invariant, for one process: the stored need vector is the
  maximum demand minus the allocation, position by position (as the constructor of
  \<^verbatim>\<open>Process\<close> computes it), and no need is negative.
\<close>

definition need_consistent :: "'a process_scheme \<Rightarrow> bool" where
  "need_consistent p =
     (need_resources p = map2 (-) (max_resources p) (allocated_resources p))"

definition need_nonneg :: "'a process_scheme \<Rightarrow> bool" where
  "need_nonneg p = list_all (\<lambda>need. 0 \<le> need) (need_resources p)"

text \<open>Every request of the queue names a known process and is not eligible: some
  component exceeds the available instances of its resource.\<close>

definition all_ineligible :: "(string \<times> int list) list \<Rightarrow> 'a process_scheme list
    \<Rightarrow> resource list \<Rightarrow> bool" where
  "all_ineligible queue processes resources =
     list_all (\<lambda>(rpid, request). index_of_pid rpid processes \<noteq> None
                 \<and> \<not> can_grant request resources) queue"

text \<open>
  The safety check as the specification words it. The state is the working
  availability, the set of the positions of the finished processes and the order
  produced so far. While some process is unfinished: take the first position, in the
  order in which the processes were supplied, whose process is unfinished and has
  \<open>need[i] \<le> working[i]\<close> for every resource; add its allocation to the working vector,
  mark it finished, append its pid to the order, and scan again from the beginning. If
  no position qualifies the state is unsafe and the order is dropped; when every
  process is finished the state is safe with the order produced.
\<close>

datatype safety = Safe "string list" | Unsafe

definition eligible :: "'a process_scheme \<Rightarrow> int list \<Rightarrow> bool" where
  "eligible p working = list_all2 (\<le>) (need_resources p) working"

function check_safety_from :: "'a process_scheme list \<Rightarrow> int list \<Rightarrow> nat set \<Rightarrow> string list
    \<Rightarrow> safety" where
  "check_safety_from ps working finished order =
     (if list_all (\<lambda>i. i \<in> finished) [0..<length ps] then Safe order
      else
        (case find (\<lambda>i. i \<notin> finished \<and> eligible (ps ! i) working) [0..<length ps] of
           None \<Rightarrow> Unsafe
         | Some i \<Rightarrow>
             check_safety_from ps (map2 (+) working (allocated_resources (ps ! i)))
               (insert i finished) (order @ [pid (ps ! i)])))"
  by pat_completeness auto
termination
proof (relation "measure (\<lambda>(ps, working, finished, order). card ({..<length ps} - finished))")
  show "wf (measure (\<lambda>(ps, working, finished, order). card ({..<length ps} - finished)))"
    by simp
next
  fix ps :: "'a process_scheme list" and working :: "int list" and finished :: "nat set"
    and order :: "string list" and i
  assume "find (\<lambda>i. i \<notin> finished \<and> eligible (ps ! i) working) [0..<length ps] = Some i"
  then have "i \<in> set [0..<length ps]" "i \<notin> finished"
    unfolding find_Some_iff by (auto simp del: upt_Suc)
  then have "i \<in> {..<length ps} - finished" by simp
  then have "card ({..<length ps} - insert i finished) < card ({..<length ps} - finished)"
    by (metis Diff_insert card_Diff1_less finite_Diff finite_lessThan)
  then show "((ps, map2 (+) working (allocated_resources (ps ! i)), insert i finished,
               order @ [pid (ps ! i)]), ps, working, finished, order)
         \<in> measure (\<lambda>(ps, working, finished, order). card ({..<length ps} - finished))"
    by simp
qed

definition check_safety :: "'a process_scheme list \<Rightarrow> resource list \<Rightarrow> safety" where
  "check_safety ps rs = check_safety_from ps (map available_instances rs) {} []"

text \<open>The result record that stands for an answer of the specification: an unsafe
  state carries no order.\<close>

fun to_result :: "safety \<Rightarrow> safety_result" where
  "to_result (Safe order) =
     \<lparr>safe = True, safe_sequence = Some order, safety_message = SystemSafe\<rparr>"
| "to_result Unsafe =
     \<lparr>safe = False, safe_sequence = None, safety_message = SystemNotSafe\<rparr>"

text \<open>The input schema: the need vector and the allocation vector of every process
  have one entry per resource.\<close>

definition well_shaped :: "'a process_scheme list \<Rightarrow> resource list \<Rightarrow> bool" where
  "well_shaped ps rs =
     list_all (\<lambda>p. length (need_resources p) = length rs
                  \<and> length (allocated_resources p) = length rs) ps"

text \<open>
  The wait-for graph as a relation: an edge leads from a key of the dictionary to each
  process in its list; a process that is not a key has no outgoing edge. The graph
  contains a directed cycle when some process reaches itself along one edge or more.
\<close>

definition edges :: "wait_for_graph \<Rightarrow> (string \<times> string) set" where
  "edges g = {(u, v). v \<in> set (neighbors g u)}"

definition has_directed_cycle :: "wait_for_graph \<Rightarrow> bool" where
  "has_directed_cycle g = (\<exists>u. (u, u) \<in> (edges g)\<^sup>+)"

fun is_path :: "wait_for_graph \<Rightarrow> string list \<Rightarrow> bool" where
  "is_path g [] = True"
| "is_path g [u] = True"
| "is_path g (u # v # rest) = (v \<in> set (neighbors g u) \<and> is_path g (v # rest))"

definition graph_nodes :: "wait_for_graph \<Rightarrow> string list" where
  "graph_nodes g = remdups (map fst g @ concat (map snd g))"

text \<open>
  What \<open>deadlocked_processes\<close> holds when the search stops at a back-edge: the processes
  on the current search path. The path starts at a key of the dictionary, follows
  edges, visits no process twice, and its last process has an edge to a process of the
  path (the back-edge). The processes from the target of the back-edge on form a cycle;
  the ones before it are on the way to the cycle only.
\<close>

definition stack_snapshot :: "wait_for_graph \<Rightarrow> string set \<Rightarrow> bool" where
  "stack_snapshot g s =
     (\<exists>path. path \<noteq> [] \<and> hd path \<in> set (map fst g) \<and> distinct path \<and> is_path g path
        \<and> (\<exists>v \<in> set path. v \<in> set (neighbors g (last path)))
        \<and> s = set path)"

text \<open>
  Two notions for the proofs. \<open>snapshot_from g stk s\<close>: \<open>s\<close> is such a path that
  extends the path \<open>stk\<close>. \<open>black_closed g V S\<close>: the processes that are visited and no
  longer on the recursion stack have all their successors among themselves, and none of
  them lies on a cycle.
\<close>

definition snapshot_from :: "wait_for_graph \<Rightarrow> string list \<Rightarrow> string set \<Rightarrow> bool" where
  "snapshot_from g stk s =
     (\<exists>rest. stk @ rest \<noteq> [] \<and> distinct (stk @ rest) \<and> is_path g (stk @ rest)
        \<and> (\<exists>v \<in> set (stk @ rest). v \<in> set (neighbors g (last (stk @ rest))))
        \<and> s = set (stk @ rest))"

definition black_closed :: "wait_for_graph \<Rightarrow> string set \<Rightarrow> string set \<Rightarrow> bool" where
  "black_closed g V S =
     ((\<forall>u \<in> V - S. set (neighbors g u) \<subseteq> V - S) \<and> (\<forall>u \<in> V - S. (u, u) \<notin> (edges g)\<^sup>+))"

text \<open>A graph with the cycle \<open>B \<rightarrow> C \<rightarrow> B\<close> that is entered from \<open>A\<close>, and a graph
  without a cycle.\<close>

definition cyclic_graph :: wait_for_graph where
  "cyclic_graph = [(''A'', [''B'']), (''B'', [''C'']), (''C'', [''B''])]"

definition acyclic_graph :: wait_for_graph where
  "acyclic_graph = [(''A'', [''B'', ''C'']), (''B'', [''C''])]"

text \<open>A ledger of the input schema that satisfies the conservation invariant.\<close>

definition ledger_ok :: "'a process_scheme list \<Rightarrow> resource list \<Rightarrow> bool" where
  "ledger_ok ps rs = (conservation ps rs \<and> well_shaped ps rs)"

section \<open>Properties\<close>

declare D_bankers_loop.simps [simp del]
declare RA_bankers_loop.simps [simp del]
declare rr_loop.simps [code]

subsection \<open>Scenario B\<close>

text \<open>
  C5, as stated: from the Scenario A state, the request \<open>[1, 0, 2]\<close> of process 1 is
  denied. It is not: neither check fails (the request is within the need \<open>[1, 2, 2]\<close>
  and within the availability \<open>[3, 3, 2]\<close>) and the state after the request is safe, so
  \<^verbatim>\<open>simulate_request\<close> grants it.
\<close>

theorem C5_scenario_B_not_denied:
  "fst (D_simulate_request scenario_A scenario_A_resources ''P1'' [1, 0, 2])
     \<noteq> Returned \<lparr>granted = False, admission_message = ExceedsAvailable\<rparr>
   \<and> fst (D_simulate_request scenario_A scenario_A_resources ''P1'' [1, 0, 2])
     \<noteq> Returned \<lparr>granted = False, admission_message = WouldBeUnsafe\<rparr>
   \<and> fst (D_simulate_request scenario_A scenario_A_resources ''P1'' [1, 0, 2])
     = Returned \<lparr>granted = True, admission_message = RequestGranted\<rparr>"
  by code_simp

text \<open>
  C5, amended: from the Scenario A state with the availability \<open>[3, 3, 2]\<close>, the request
  \<open>[1, 0, 2]\<close> of \<open>P1\<close> (the process with the maximum demand \<open>[3, 2, 2]\<close>) is granted, and
  the ledger afterwards has \<open>P1\<close> at the allocation \<open>[3, 0, 2]\<close> and the need \<open>[0, 2, 0]\<close>
  and the availability \<open>[2, 3, 0]\<close>; the state reached is safe in the order
  \<open>P1, P3, P0, P2, P4\<close>. The same request made by \<open>P0\<close>, the first process of the list,
  is denied as leading to an unsafe state, and leaves the ledger as it was.
\<close>

theorem C5_scenario_B_granted:
  "D_simulate_request scenario_A scenario_A_resources ''P1'' [1, 0, 2]
     = (Returned \<lparr>granted = True, admission_message = RequestGranted\<rparr>,
        scenario_B_processes, scenario_B_resources)
   \<and> D_bankers_algorithm scenario_B_processes scenario_B_resources
     = Returned \<lparr>safe = True, safe_sequence = Some [''P1'', ''P3'', ''P0'', ''P2'', ''P4''],
                 safety_message = SystemSafe\<rparr>
   \<and> D_simulate_request scenario_A scenario_A_resources ''P0'' [1, 0, 2]
     = (Returned \<lparr>granted = False, admission_message = WouldBeUnsafe\<rparr>,
        scenario_A, scenario_A_resources)"
  by code_simp

subsection \<open>First come, first served\<close>

text \<open>
  C6: \<^verbatim>\<open>fcfs_allocation\<close> is to serve the requests in the order in which the owning
  processes arrived. The code sorts the processes by arrival time and then uses the
  sorted list for the lookup only; the loop runs over the batch as it is given. With
  one instance available, \<open>P1\<close> (arrival 5) asking before \<open>P2\<close> (arrival 0) in the
  batch, the code grants \<open>P1\<close> and denies \<open>P2\<close>; in arrival order \<open>P2\<close> would be granted
  and \<open>P1\<close> denied.
\<close>

theorem C6_fcfs_serves_in_batch_order:
  "fcfs_allocation fcfs_processes fcfs_resources fcfs_requests
     = (Returned [\<lparr>granted = True, admission_message = FcfsGranted ''P1''\<rparr>,
                  \<lparr>granted = False, admission_message = FcfsDenied ''P2''\<rparr>],
        fcfs_processes[0 := (fcfs_processes ! 0)\<lparr>allocated_resources := [1], need_resources := [0]\<rparr>],
        [\<lparr>rid = ''R1'', total_instances = 1, available_instances = 0\<rparr>])"
  by code_simp

subsection \<open>Conservation\<close>

text \<open>
  C3: every policy run is to preserve the conservation invariant.
  \<^verbatim>\<open>fair_share_allocation\<close> overwrites the allocations with shares of the total, and
  subtracts the shares from the instances that were available before the call, not
  from the total. On a ledger that satisfies the invariant with instances allocated,
  the availability drops too far: here to \<open>-2\<close>, with all four instances allocated.
\<close>

theorem C3_fair_share_breaks_conservation:
  "conservation fair_processes fair_resources
   \<and> fair_share_allocation fair_processes fair_resources
       = (Returned ([''P1'' \<mapsto> [2], ''P2'' \<mapsto> [2]], FairShareCompleted 2),
          [\<lparr>pid = ''P1'', max_resources = [4], allocated_resources = [2], need_resources = [2]\<rparr>,
           \<lparr>pid = ''P2'', max_resources = [4], allocated_resources = [2], need_resources = [2]\<rparr>],
          [\<lparr>rid = ''R1'', total_instances = 4, available_instances = - 2\<rparr>])
   \<and> \<not> conservation (fst (snd (fair_share_allocation fair_processes fair_resources)))
          (snd (snd (fair_share_allocation fair_processes fair_resources)))"
  by (simp add: conservation_def fair_processes_def fair_resources_def fair_share_allocation_def
        Let_def)

subsection \<open>The two copies of the Banker's algorithm\<close>

lemma D_scan_eq_RA_scan: "D_scan i ps finish work = RA_scan i ps finish work"
  by (induction ps arbitrary: i) (simp_all split: outcome.splits bool.splits)

lemma D_loop_eq_RA_loop:
  "D_bankers_loop ps work finish sq = RA_bankers_loop ps work finish sq"
proof (induction ps work finish sq rule: D_bankers_loop.induct)
  case (1 processes work finish safe_seq)
  show ?case
    apply (subst D_bankers_loop.simps)
    apply (subst RA_bankers_loop.simps)
    using 1
    apply (simp add: D_scan_eq_RA_scan split: outcome.splits option.splits prod.splits)
    done
qed

lemma D_bankers_eq_RA_bankers: "D_bankers_algorithm ps rs = RA_bankers_algorithm ps rs"
  by (simp add: D_bankers_algorithm_def RA_bankers_algorithm_def D_loop_eq_RA_loop)

lemma D_simulate_eq_RA_simulate:
  "D_simulate_request ps rs process_id request
     = RA_simulate_request_bankers ps rs process_id request"
  unfolding D_simulate_request_def RA_simulate_request_bankers_def D_bankers_eq_RA_bankers
  by simp

text \<open>
  C10: the implementations of the two modules are extensionally equal.
  \<^verbatim>\<open>DeadlockAlgorithms.bankers_algorithm\<close> and
  \<^verbatim>\<open>ResourceAllocationAlgorithms.bankers_algorithm\<close> return the same result (or raise the
  same exception) on every list of processes and resources, and
  \<^verbatim>\<open>DeadlockAlgorithms.simulate_request\<close> and
  \<^verbatim>\<open>ResourceAllocationAlgorithms.simulate_request_bankers\<close> return the same result and
  leave the same live ledger, for every process id and request vector.
\<close>

theorem C10_duplicates_agree:
  "D_bankers_algorithm ps rs = RA_bankers_algorithm ps rs
   \<and> D_simulate_request ps rs process_id request
       = RA_simulate_request_bankers ps rs process_id request"
  using D_bankers_eq_RA_bankers D_simulate_eq_RA_simulate by blast

subsection \<open>The allocation loop\<close>

lemma apply_vec_Nil [simp]: "apply_vec f xs [] = xs"
  by (cases xs) simp_all

lemma length_apply_vec [simp]: "length (apply_vec f xs reqs) = length xs"
  by (induction f xs reqs rule: apply_vec.induct) simp_all

lemma apply_vec_step:
  assumes "i < length xs"
  shows "take (Suc i) (xs[i := f (xs ! i) r]) @ apply_vec f (drop (Suc i) (xs[i := f (xs ! i) r])) rs
         = take i xs @ apply_vec f (drop i xs) (r # rs)"
proof -
  have "drop i xs = xs ! i # drop (Suc i) xs"
    using assms by (simp add: Cons_nth_drop_Suc)
  moreover have "take (Suc i) (xs[i := f (xs ! i) r]) = take i xs @ [f (xs ! i) r]"
    using assms by (simp add: take_Suc_conv_app_nth)
  ultimately show ?thesis by simp
qed

text \<open>When the loop ends without an exception, the request fits into the three vectors
  from position \<open>i\<close> on, and has been applied there.\<close>

lemma allocate_loop_None:
  "allocate_loop i reqs p rs = (None, p', rs') \<Longrightarrow>
     length reqs \<le> length (allocated_resources p) - i
   \<and> length reqs \<le> length (need_resources p) - i
   \<and> length reqs \<le> length rs - i
   \<and> p' = p\<lparr>allocated_resources :=
               take i (allocated_resources p) @ apply_vec (+) (drop i (allocated_resources p)) reqs,
             need_resources :=
               take i (need_resources p) @ apply_vec (-) (drop i (need_resources p)) reqs\<rparr>
   \<and> rs' = take i rs @ apply_vec sub_available (drop i rs) reqs"
proof (induction reqs arbitrary: i p rs)
  case Nil
  then show ?case by simp
next
  case (Cons req reqs)
  from Cons.prems have a: "i < length (allocated_resources p)" "i < length (need_resources p)"
      "i < length rs"
    by (auto simp: Let_def split: if_splits)
  let ?p2 = "p\<lparr>allocated_resources := (allocated_resources p)[i := allocated_resources p ! i + req],
               need_resources := (need_resources p)[i := need_resources p ! i - req]\<rparr>"
  let ?rs2 = "rs[i := sub_available (rs ! i) req]"
  from Cons.prems a have r: "allocate_loop (Suc i) reqs ?p2 ?rs2 = (None, p', rs')"
    by (simp add: Let_def sub_available_def)
  note ih = Cons.IH[OF r]
  have 1: "length (req # reqs) \<le> length (allocated_resources p) - i"
          "length (req # reqs) \<le> length (need_resources p) - i"
          "length (req # reqs) \<le> length rs - i"
    using ih a by auto
  have 2: "rs' = take i rs @ apply_vec sub_available (drop i rs) (req # reqs)"
    using ih apply_vec_step[OF a(3), of sub_available req reqs] by simp
  have 3: "p' = p\<lparr>allocated_resources :=
               take i (allocated_resources p)
                 @ apply_vec (+) (drop i (allocated_resources p)) (req # reqs),
             need_resources :=
               take i (need_resources p) @ apply_vec (-) (drop i (need_resources p)) (req # reqs)\<rparr>"
    using ih apply_vec_step[OF a(1), of "(+)" req reqs] apply_vec_step[OF a(2), of "(-)" req reqs]
    by simp
  show ?case using 1 2 3 by blast
qed

lemma allocate_loop_0:
  assumes "allocate_loop 0 request p rs = (None, p', rs')"
  shows "p' = p\<lparr>allocated_resources := apply_vec (+) (allocated_resources p) request,
                need_resources := apply_vec (-) (need_resources p) request\<rparr>"
    and "rs' = apply_vec sub_available rs request"
    and "length request \<le> length (allocated_resources p)"
    and "length request \<le> length (need_resources p)"
    and "length request \<le> length rs"
  using allocate_loop_None[OF assms] by simp_all

lemma index_of_pid_Some:
  "index_of_pid x ps = Some k \<Longrightarrow>
     k < length ps \<and> pid (ps ! k) = x \<and> (\<forall>j<k. pid (ps ! j) \<noteq> x)"
proof (induction ps arbitrary: k)
  case Nil then show ?case by simp
next
  case (Cons p ps)
  show ?case
  proof (cases "pid p = x")
    case True with Cons.prems show ?thesis by simp
  next
    case False
    with Cons.prems obtain k' where k: "index_of_pid x ps = Some k'" "k = Suc k'" by auto
    from Cons.IH[OF k(1)] False k(2) show ?thesis
      by (auto simp: nth_Cons' less_Suc_eq_0_disj)
  qed
qed

lemma index_of_pid_None: "index_of_pid x ps = None \<longleftrightarrow> x \<notin> pid ` set ps"
  by (induction ps) auto

subsection \<open>The single request is transactional\<close>

lemma D_simulate_request_cases:
  assumes "D_simulate_request ps rs process_id request = (out, ps', rs')"
  shows "(\<not> is_granted out \<longrightarrow> ps' = ps \<and> rs' = rs)
       \<and> (is_granted out \<longrightarrow>
            (\<exists>k. index_of_pid process_id ps = Some k
               \<and> length request \<le> length rs
               \<and> length request \<le> length (allocated_resources (ps ! k))
               \<and> length request \<le> length (need_resources (ps ! k))
               \<and> (ps', rs') = request_applied ps rs k request))"
proof (cases "index_of_pid process_id ps")
  case None
  with assms show ?thesis by (auto simp: D_simulate_request_def is_granted_def)
next
  case (Some k)
  obtain e p1 rs1 where al: "allocate_loop 0 request (ps ! k) rs = (e, p1, rs1)"
    by (cases "allocate_loop 0 request (ps ! k) rs") auto
  show ?thesis
  proof (cases e)
    case None
    note l = allocate_loop_0[OF al[unfolded None]]
    from assms Some al None l show ?thesis
      by (auto simp: D_simulate_request_def is_granted_def request_applied_def
               split: if_splits outcome.splits)
  next
    case (Some err)
    with assms \<open>index_of_pid process_id ps = Some k\<close> al show ?thesis
      by (auto simp: D_simulate_request_def is_granted_def split: if_splits)
  qed
qed

text \<open>
  C2: \<^verbatim>\<open>simulate_request\<close> (and its copy \<^verbatim>\<open>simulate_request_bankers\<close>) is transactional.
  Whatever the ledger, the process id and the request vector: when the call does not
  grant the request (unknown process, request above the need, request above the
  availability, unsafe state, or an exception) the live processes and resources are
  exactly those before the call; when it grants, the process is the first one with
  that pid, the request fits the vectors, and the live ledger is the old one with the
  request added to the allocation of that process and subtracted from its need and
  from the available instances.
\<close>

theorem C2_simulate_request_transactional:
  assumes "D_simulate_request ps rs process_id request = (out, ps', rs')
         \<or> RA_simulate_request_bankers ps rs process_id request = (out, ps', rs')"
  shows "(\<not> is_granted out \<longrightarrow> ps' = ps \<and> rs' = rs)
       \<and> (is_granted out \<longrightarrow>
            (\<exists>k. index_of_pid process_id ps = Some k
               \<and> length request \<le> length rs
               \<and> length request \<le> length (allocated_resources (ps ! k))
               \<and> length request \<le> length (need_resources (ps ! k))
               \<and> (ps', rs') = request_applied ps rs k request))"
proof -
  from assms have "D_simulate_request ps rs process_id request = (out, ps', rs')"
    by (simp add: D_simulate_eq_RA_simulate)
  then show ?thesis by (rule D_simulate_request_cases)
qed

theorem C2_simulate_request_transactional_witness:
  "D_simulate_request scenario_A scenario_A_resources ''P0'' [1, 0, 2]
     = (Returned \<lparr>granted = False, admission_message = WouldBeUnsafe\<rparr>,
        scenario_A, scenario_A_resources)
   \<and> \<not> is_granted (Returned \<lparr>granted = False, admission_message = WouldBeUnsafe\<rparr>)
   \<and> RA_simulate_request_bankers scenario_A scenario_A_resources ''P1'' [1, 0, 2]
     = (Returned \<lparr>granted = True, admission_message = RequestGranted\<rparr>,
        scenario_B_processes, scenario_B_resources)
   \<and> is_granted (Returned \<lparr>granted = True, admission_message = RequestGranted\<rparr>)
   \<and> (\<exists>k. index_of_pid ''P1'' scenario_A = Some k
          \<and> (scenario_B_processes, scenario_B_resources)
              = request_applied scenario_A scenario_A_resources k [1, 0, 2])"
proof -
  have d: "D_simulate_request scenario_A scenario_A_resources ''P0'' [1, 0, 2]
     = (Returned \<lparr>granted = False, admission_message = WouldBeUnsafe\<rparr>,
        scenario_A, scenario_A_resources)"
    by code_simp
  have g: "RA_simulate_request_bankers scenario_A scenario_A_resources ''P1'' [1, 0, 2]
     = (Returned \<lparr>granted = True, admission_message = RequestGranted\<rparr>,
        scenario_B_processes, scenario_B_resources)"
    by code_simp
  have n: "\<not> is_granted (Returned \<lparr>granted = False, admission_message = WouldBeUnsafe\<rparr>)"
    and y: "is_granted (Returned \<lparr>granted = True, admission_message = RequestGranted\<rparr>)"
    by (simp_all add: is_granted_def)
  from C2_simulate_request_transactional[OF disjI1, OF d] n
       C2_simulate_request_transactional[OF disjI2, OF g] y d g
  show ?thesis by blast
qed

subsection \<open>One result per request\<close>

lemma fcfs_loop_length:
  "fcfs_loop ix reqs ps rs res = (Returned results, ps', rs') \<Longrightarrow>
     length results = length res + length reqs"
proof (induction reqs arbitrary: ps rs res)
  case Nil then show ?case by simp
next
  case (Cons a reqs)
  obtain rpid request where a: "a = (rpid, request)" by (cases a)
  from Cons.prems show ?case
    unfolding a
    by (auto split: option.splits if_splits prod.splits dest!: Cons.IH)
qed

lemma priority_loop_length:
  "priority_loop prs ps rs res = (Returned results, ps', rs') \<Longrightarrow>
     length results = length res + length prs"
proof (induction prs arbitrary: ps rs res)
  case Nil then show ?case by simp
next
  case (Cons a prs)
  obtain prio rpid request where a: "a = (prio, rpid, request)" by (cases a)
  from Cons.prems show ?case
    unfolding a
    by (auto split: option.splits if_splits prod.splits dest!: Cons.IH)
qed

lemma priority_requests_length:
  assumes "\<forall>(rpid, request) \<in> set reqs. rpid \<in> pid ` set ps"
  shows "length (priority_requests ps reqs) = length reqs"
proof -
  have "length (List.map_filter
       (\<lambda>(rpid, request). case index_of_pid rpid ps of
            None \<Rightarrow> None
          | Some k \<Rightarrow> Some (priority (ps ! k), rpid, request)) reqs) = length reqs"
    using assms
  proof (induction reqs)
    case Nil then show ?case by (simp add: List.map_filter_simps)
  next
    case (Cons a reqs)
    obtain rpid request where a: "a = (rpid, request)" by (cases a)
    with Cons.prems have "index_of_pid rpid ps \<noteq> None"
      by (simp add: index_of_pid_None)
    with Cons show ?case
      by (auto simp: a List.map_filter_simps)
  qed
  then show ?thesis by (simp add: priority_requests_def)
qed

text \<open>Every turn of the round-robin loop takes one request from the queue and appends
  one result, so a call that returns has appended at least one result per request.\<close>

lemma rr_loop_length:
  assumes "rr_loop tq queue ps rs res = Some y"
  shows "\<forall>results ps' rs'. y = (Returned results, ps', rs') \<longrightarrow>
           length res + length queue \<le> length results"
proof (rule rr_loop.raw_induct[where P = "\<lambda>tq queue ps rs res y. \<forall>results ps' rs'.
           y = (Returned results, ps', rs') \<longrightarrow> length res + length queue \<le> length results",
         OF _ assms], goal_cases)
  case (1 rr tq queue ps rs res y)
  show ?case
  proof (cases queue)
    case Nil
    with 1(2) show ?thesis by auto
  next
    case (Cons a queue')
    obtain rpid request where a: "a = (rpid, request)" by (cases a)
    show ?thesis
    proof (cases "index_of_pid rpid ps")
      case None
      with 1(2) Cons a have "rr tq queue' ps rs
          (res @ [\<lparr>granted = False, admission_message = ProcessNotFound rpid\<rparr>]) = Some y"
        by simp
      from 1(1)[OF this] Cons show ?thesis by auto
    next
      case (Some k)
      show ?thesis
      proof (cases "can_grant request rs")
        case False
        with 1(2) Cons a Some have "rr tq (queue' @ [(rpid, request)]) ps rs
          (res @ [\<lparr>granted = False, admission_message = RRDenied rpid\<rparr>]) = Some y"
          by simp
        from 1(1)[OF this] Cons show ?thesis by auto
      next
        case True
        show ?thesis
        proof (cases "request = []")
          case True
          with 1(2) Cons a Some \<open>can_grant request rs\<close> show ?thesis by auto
        next
          case False
          let ?at = "min tq (Max (set request))"
          obtain e p' rs' where al:
            "allocate_loop 0 (map (\<lambda>req. min req ?at) request) (ps ! k) rs = (e, p', rs')"
            by (cases "allocate_loop 0 (map (\<lambda>req. min req ?at) request) (ps ! k) rs") auto
          show ?thesis
          proof (cases e)
            case (Some err)
            with 1(2) Cons a \<open>index_of_pid rpid ps = Some k\<close> True False al show ?thesis
              by (auto simp: Let_def)
          next
            case None
            show ?thesis
            proof (cases "list_all (\<lambda>need. need = 0) (need_resources p')")
              case True
              with 1(2) Cons a \<open>index_of_pid rpid ps = Some k\<close> \<open>can_grant request rs\<close>
                False al None
              have "rr tq queue' (ps[k := p']) rs'
                  (res @ [\<lparr>granted = True, admission_message = RRCompleted rpid\<rparr>]) = Some y"
                by (simp add: Let_def)
              from 1(1)[OF this] Cons show ?thesis by auto
            next
              case nz: False
              with 1(2) Cons a \<open>index_of_pid rpid ps = Some k\<close> \<open>can_grant request rs\<close>
                False al None
              have "rr tq (queue' @ [(rpid, map (max 0) (need_resources p'))]) (ps[k := p']) rs'
                  (res @ [\<lparr>granted = True, admission_message = RRPartial rpid\<rparr>]) = Some y"
                by (simp add: Let_def)
              from 1(1)[OF this] Cons show ?thesis by auto
            qed
          qed
        qed
      qed
    qed
  qed
qed

text \<open>
  C8, as stated: the fcfs, priority and round-robin policies produce exactly one result
  per request of the batch. The round-robin policy appends a result at every turn of
  its loop, also when it re-enqueues: the single request \<open>[2]\<close> of \<open>P1\<close>, served with
  the time quantum 1, yields two results.
\<close>

theorem C8_round_robin_two_results_for_one_request:
  "round_robin_allocation rr_processes two_resources [(''P1'', [2])] 1
     = Some (Returned [\<lparr>granted = True, admission_message = RRPartial ''P1''\<rparr>,
                       \<lparr>granted = True, admission_message = RRCompleted ''P1''\<rparr>],
             [\<lparr>pid = ''P1'', max_resources = [2], allocated_resources = [2],
                need_resources = [0]\<rparr>],
             [\<lparr>rid = ''R1'', total_instances = 2, available_instances = 0\<rparr>])
   \<and> length [\<lparr>granted = True, admission_message = RRPartial ''P1''\<rparr>,
              \<lparr>granted = True, admission_message = RRCompleted ''P1''\<rparr>]
       \<noteq> length [(''P1'', [2::int])]"
  by code_simp

text \<open>
  C8, amended: a call of \<^verbatim>\<open>fcfs_allocation\<close> that returns produces exactly one result per
  request of the batch, unknown process ids included; a call of \<^verbatim>\<open>priority_allocation\<close>
  that returns produces exactly one result per request when every request names a known
  process; a call of \<^verbatim>\<open>round_robin_allocation\<close> that returns produces one result per turn
  of its queue, hence at least one per request of the batch.
\<close>

theorem C8_results_per_request:
  "(fcfs_allocation ps rs reqs = (Returned results, ps', rs')
      \<longrightarrow> length results = length reqs)
   \<and> (priority_allocation ps rs reqs = (Returned results, ps', rs')
        \<and> (\<forall>(rpid, request) \<in> set reqs. rpid \<in> pid ` set ps)
      \<longrightarrow> length results = length reqs)
   \<and> (round_robin_allocation qs rs reqs time_quantum = Some (Returned results, qs', rs')
      \<longrightarrow> length reqs \<le> length results)"
proof (intro conjI impI)
  assume "fcfs_allocation ps rs reqs = (Returned results, ps', rs')"
  then show "length results = length reqs"
    unfolding fcfs_allocation_def by (auto dest: fcfs_loop_length)
next
  assume a: "priority_allocation ps rs reqs = (Returned results, ps', rs')
        \<and> (\<forall>(rpid, request) \<in> set reqs. rpid \<in> pid ` set ps)"
  then have "length results = length (priority_requests ps reqs)"
    unfolding priority_allocation_def by (auto dest: priority_loop_length)
  with a show "length results = length reqs"
    by (simp add: priority_requests_length)
next
  assume "round_robin_allocation qs rs reqs time_quantum = Some (Returned results, qs', rs')"
  then show "length reqs \<le> length results"
    unfolding round_robin_allocation_def by (auto dest: rr_loop_length)
qed

theorem C8_results_per_request_witness:
  "fcfs_allocation priority_processes one_resource [(''P9'', [1]), (''P1'', [1])]
     = (Returned [\<lparr>granted = False, admission_message = ProcessNotFound ''P9''\<rparr>,
                  \<lparr>granted = True, admission_message = FcfsGranted ''P1''\<rparr>],
        priority_processes[0 := (priority_processes ! 0)
           \<lparr>allocated_resources := [1], need_resources := [0]\<rparr>],
        [\<lparr>rid = ''R1'', total_instances = 1, available_instances = 0\<rparr>])
   \<and> priority_allocation priority_processes one_resource [(''P1'', [1]), (''P2'', [1])]
     = (Returned [\<lparr>granted = True, admission_message = PriorityGranted ''P2'' 5\<rparr>,
                  \<lparr>granted = False, admission_message = PriorityDenied ''P1'' 1\<rparr>],
        priority_processes[1 := (priority_processes ! 1)
           \<lparr>allocated_resources := [1], need_resources := [0]\<rparr>],
        [\<lparr>rid = ''R1'', total_instances = 1, available_instances = 0\<rparr>])
   \<and> list_all (\<lambda>(rpid, request). rpid \<in> pid ` set priority_processes)
         [(''P1'', [1::int]), (''P2'', [1])]
   \<and> round_robin_allocation priority_processes two_resources [(''P1'', [1])] 1
     = Some (Returned [\<lparr>granted = True, admission_message = RRCompleted ''P1''\<rparr>],
        priority_processes[0 := (priority_processes ! 0)
           \<lparr>allocated_resources := [1], need_resources := [0]\<rparr>],
        [\<lparr>rid = ''R1'', total_instances = 2, available_instances = 1\<rparr>])
   \<and> length [\<lparr>granted = False, admission_message = ProcessNotFound ''P9''\<rparr>,
              \<lparr>granted = True, admission_message = FcfsGranted ''P1''\<rparr>]
       = length [(''P9'', [1::int]), (''P1'', [1])]
   \<and> length [\<lparr>granted = True, admission_message = PriorityGranted ''P2'' 5\<rparr>,
              \<lparr>granted = False, admission_message = PriorityDenied ''P1'' 1\<rparr>]
       = length [(''P1'', [1::int]), (''P2'', [1])]
   \<and> length [(''P1'', [1::int])]
       \<le> length [\<lparr>granted = True, admission_message = RRCompleted ''P1''\<rparr>]"
proof -
  let ?r = "[\<lparr>rid = ''R1'', total_instances = 1, available_instances = 0\<rparr>]"
  let ?p0 = "priority_processes[0 := (priority_processes ! 0)
           \<lparr>allocated_resources := [1], need_resources := [0]\<rparr>]"
  let ?p1 = "priority_processes[1 := (priority_processes ! 1)
           \<lparr>allocated_resources := [1], need_resources := [0]\<rparr>]"
  have f: "fcfs_allocation priority_processes one_resource [(''P9'', [1]), (''P1'', [1])]
     = (Returned [\<lparr>granted = False, admission_message = ProcessNotFound ''P9''\<rparr>,
                  \<lparr>granted = True, admission_message = FcfsGranted ''P1''\<rparr>], ?p0, ?r)"
    by code_simp
  have p: "priority_allocation priority_processes one_resource [(''P1'', [1]), (''P2'', [1])]
     = (Returned [\<lparr>granted = True, admission_message = PriorityGranted ''P2'' 5\<rparr>,
                  \<lparr>granted = False, admission_message = PriorityDenied ''P1'' 1\<rparr>], ?p1, ?r)"
    by code_simp
  have k: "\<forall>(rpid, request) \<in> set [(''P1'', [1::int]), (''P2'', [1])].
         rpid \<in> pid ` set priority_processes"
    by (simp add: priority_processes_def)
  have r: "round_robin_allocation priority_processes two_resources [(''P1'', [1])] 1
     = Some (Returned [\<lparr>granted = True, admission_message = RRCompleted ''P1''\<rparr>], ?p0,
        [\<lparr>rid = ''R1'', total_instances = 2, available_instances = 1\<rparr>])"
    by code_simp
  note t1 = C8_results_per_request[of priority_processes one_resource
      "[(''P9'', [1]), (''P1'', [1])]" _ ?p0 ?r, THEN conjunct1, rule_format, OF f]
  note t2 = C8_results_per_request[of priority_processes one_resource
      "[(''P1'', [1]), (''P2'', [1])]" _ ?p1 ?r, THEN conjunct2, THEN conjunct1, rule_format,
      OF conjI, OF p k]
  note t3 = C8_results_per_request[THEN conjunct2, THEN conjunct2, rule_format, OF r]
  from f p k r t1 t2 t3 show ?thesis unfolding list_all_iff by blast
qed

subsection \<open>The need invariant\<close>

lemma map2_minus_apply_vec:
  "map2 (-) ms (apply_vec (+) as rq) = apply_vec (-) (map2 (-) ms as) rq"
proof (induction as arbitrary: ms rq)
  case Nil then show ?case by simp
next
  case (Cons a as)
  show ?case
  proof (cases ms)
    case Nil then show ?thesis by simp
  next
    case (Cons m ms')
    then show ?thesis using Cons.IH by (cases rq) simp_all
  qed
qed

lemma need_consistent_applied:
  "need_consistent p \<Longrightarrow>
   need_consistent (p\<lparr>allocated_resources := apply_vec (+) (allocated_resources p) request,
                      need_resources := apply_vec (-) (need_resources p) request\<rparr>)"
  by (simp add: need_consistent_def map2_minus_apply_vec)

lemma need_nonneg_applied:
  "\<not> any_exceeds request needs \<Longrightarrow> list_all (\<lambda>need. 0 \<le> need) needs \<Longrightarrow>
   list_all (\<lambda>need. 0 \<le> need) (apply_vec (-) needs request)"
proof (induction needs arbitrary: request)
  case Nil then show ?case by simp
next
  case (Cons n needs)
  then show ?case by (cases request) (auto simp: any_exceeds_def)
qed

lemma allocate_loop_consistent:
  assumes "allocate_loop 0 request p rs = (None, p', rs')" "need_consistent p"
  shows "need_consistent p'"
  using allocate_loop_0(1)[OF assms(1)] need_consistent_applied[OF assms(2)] by simp

lemma find_in_set: "find P xs = Some x \<Longrightarrow> x \<in> set xs \<and> P x"
  by (induction xs) (auto split: if_splits)

lemma update_all:
  assumes "\<forall>p \<in> set ps. Q p" "Q p'"
  shows "\<forall>p \<in> set (ps[k := p']). Q p"
  using assms set_update_subset_insert[of ps k p'] by auto

lemma fcfs_loop_consistent:
  "fcfs_loop ix reqs ps rs res = (Returned results, ps', rs') \<Longrightarrow>
   set ix \<subseteq> {..<length ps} \<Longrightarrow> \<forall>p \<in> set ps. need_consistent p \<Longrightarrow>
   \<forall>p \<in> set ps'. need_consistent p"
proof (induction reqs arbitrary: ps rs res)
  case Nil then show ?case by simp
next
  case (Cons a reqs)
  obtain rpid request where a: "a = (rpid, request)" by (cases a)
  show ?case
  proof (cases "find (\<lambda>k. pid (ps ! k) = rpid) ix")
    case None
    with Cons.prems a show ?thesis by (auto dest: Cons.IH)
  next
    case (Some k)
    then have k: "k < length ps" using Cons.prems(2) by (auto dest: find_in_set)
    show ?thesis
    proof (cases "can_grant request rs")
      case False
      with Cons.prems a Some show ?thesis by (auto dest: Cons.IH)
    next
      case True
      obtain e p1 rs1 where al: "allocate_loop 0 request (ps ! k) rs = (e, p1, rs1)"
        by (cases "allocate_loop 0 request (ps ! k) rs") auto
      show ?thesis
      proof (cases e)
        case (Some err)
        with Cons.prems a \<open>find (\<lambda>k. pid (ps ! k) = rpid) ix = Some k\<close> True al
        show ?thesis by simp
      next
        case None
        from Cons.prems(3) k have "need_consistent (ps ! k)" by simp
        with al None have "need_consistent p1" by (auto intro: allocate_loop_consistent)
        with Cons.prems(3) have inv: "\<forall>p \<in> set (ps[k := p1]). need_consistent p"
          by (rule update_all)
        from Cons.prems(1) a \<open>find (\<lambda>k. pid (ps ! k) = rpid) ix = Some k\<close> True al None
        have "fcfs_loop ix reqs (ps[k := p1]) rs1
                (res @ [\<lparr>granted = True, admission_message = FcfsGranted rpid\<rparr>])
              = (Returned results, ps', rs')" by simp
        from Cons.IH[OF this _ inv] Cons.prems(2) show ?thesis by simp
      qed
    qed
  qed
qed

lemma fcfs_allocation_consistent:
  assumes "fcfs_allocation ps rs reqs = (Returned results, ps', rs')"
      "\<forall>p \<in> set ps. need_consistent p"
  shows "\<forall>p \<in> set ps'. need_consistent p"
proof -
  have "set (sort_key (\<lambda>k. arrival_time (ps ! k)) [0..<length ps]) \<subseteq> {..<length ps}"
    by auto
  from fcfs_loop_consistent[OF assms(1)[unfolded fcfs_allocation_def] this assms(2)]
  show ?thesis .
qed

lemma priority_loop_consistent:
  "priority_loop prs ps rs res = (Returned results, ps', rs') \<Longrightarrow>
   \<forall>p \<in> set ps. need_consistent p \<Longrightarrow>
   \<forall>p \<in> set ps'. need_consistent p"
proof (induction prs arbitrary: ps rs res)
  case Nil then show ?case by simp
next
  case (Cons a prs)
  obtain prio rpid request where a: "a = (prio, rpid, request)" by (cases a)
  show ?case
  proof (cases "index_of_pid rpid ps")
    case None
    with Cons.prems a show ?thesis by auto
  next
    case (Some k)
    then have k: "k < length ps" by (auto dest: index_of_pid_Some)
    show ?thesis
    proof (cases "can_grant request rs")
      case False
      with Cons.prems a Some show ?thesis by (auto dest: Cons.IH)
    next
      case True
      obtain e p1 rs1 where al: "allocate_loop 0 request (ps ! k) rs = (e, p1, rs1)"
        by (cases "allocate_loop 0 request (ps ! k) rs") auto
      show ?thesis
      proof (cases e)
        case (Some err)
        with Cons.prems a \<open>index_of_pid rpid ps = Some k\<close> True al show ?thesis by simp
      next
        case None
        from Cons.prems(2) k have "need_consistent (ps ! k)" by simp
        with al None have "need_consistent p1" by (auto intro: allocate_loop_consistent)
        with Cons.prems(2) have inv: "\<forall>p \<in> set (ps[k := p1]). need_consistent p"
          by (rule update_all)
        from Cons.prems(1) a \<open>index_of_pid rpid ps = Some k\<close> True al None
        have "priority_loop prs (ps[k := p1]) rs1
                (res @ [\<lparr>granted = True,
                          admission_message = PriorityGranted rpid (priority p1)\<rparr>])
              = (Returned results, ps', rs')" by simp
        from Cons.IH[OF this inv] show ?thesis .
      qed
    qed
  qed
qed

lemma simulate_request_need:
  assumes "D_simulate_request ps rs process_id request = (out, ps', rs')"
      "\<forall>p \<in> set ps. need_consistent p \<and> need_nonneg p"
  shows "\<forall>p \<in> set ps'. need_consistent p \<and> need_nonneg p"
proof (cases "is_granted out")
  case False
  with D_simulate_request_cases[OF assms(1)] assms(2) show ?thesis by simp
next
  case True
  with D_simulate_request_cases[OF assms(1)] obtain k where
    k: "index_of_pid process_id ps = Some k" and
    ap: "(ps', rs') = request_applied ps rs k request" by blast
  from k have kl: "k < length ps" by (auto dest: index_of_pid_Some)
  have ne: "\<not> any_exceeds request (need_resources (ps ! k))"
    using assms(1) True k
    by (auto simp: D_simulate_request_def is_granted_def split: if_splits)
  let ?p = "(ps ! k)\<lparr>allocated_resources := apply_vec (+) (allocated_resources (ps ! k)) request,
                     need_resources := apply_vec (-) (need_resources (ps ! k)) request\<rparr>"
  from assms(2) kl have pk: "need_consistent (ps ! k)" "need_nonneg (ps ! k)" by simp_all
  have "need_consistent ?p" using pk(1) by (rule need_consistent_applied)
  moreover have "need_nonneg ?p"
    using need_nonneg_applied[OF ne] pk(2) by (simp add: need_nonneg_def)
  ultimately have "\<forall>p \<in> set (ps[k := ?p]). need_consistent p \<and> need_nonneg p"
    using assms(2) by (intro update_all) simp_all
  with ap show ?thesis by (simp add: request_applied_def)
qed

text \<open>
  C4, as stated: after every admission operation, fcfs and priority grants included,
  no allocation exceeds the maximum demand and no need is negative. The fcfs and the
  priority policy compare a request with the availability only: a process with the
  maximum demand 1 that asks for 3 of 5 available instances is granted them, and is
  left with the allocation 3 and the need \<open>-2\<close>.
\<close>

theorem C4_fcfs_grant_exceeds_claim:
  "list_all need_consistent small_claim_processes
   \<and> list_all need_nonneg small_claim_processes
   \<and> fcfs_allocation small_claim_processes five_resources [(''P1'', [3])]
     = (Returned [\<lparr>granted = True, admission_message = FcfsGranted ''P1''\<rparr>],
        [\<lparr>pid = ''P1'', max_resources = [1], allocated_resources = [3], need_resources = [- 2],
           priority = 0, arrival_time = 0, wait_time = 0, finish_time = None\<rparr>],
        [\<lparr>rid = ''R1'', total_instances = 5, available_instances = 2\<rparr>])
   \<and> priority_allocation small_claim_processes five_resources [(''P1'', [3])]
     = (Returned [\<lparr>granted = True, admission_message = PriorityGranted ''P1'' 0\<rparr>],
        [\<lparr>pid = ''P1'', max_resources = [1], allocated_resources = [3], need_resources = [- 2],
           priority = 0, arrival_time = 0, wait_time = 0, finish_time = None\<rparr>],
        [\<lparr>rid = ''R1'', total_instances = 5, available_instances = 2\<rparr>])
   \<and> \<not> need_nonneg \<lparr>pid = ''P1'', max_resources = [1], allocated_resources = [3],
           need_resources = [- 2],
           priority = 0, arrival_time = 0, wait_time = 0, finish_time = None\<rparr>
   \<and> \<not> list_all2 (\<le>) [3] [1::int]"
  by code_simp

text \<open>
  C4, amended: the equation between the three vectors, need = maximum demand -
  allocation at every position, is preserved by every call of \<^verbatim>\<open>fcfs_allocation\<close> and
  of \<^verbatim>\<open>priority_allocation\<close> that returns; these two policies check a request against
  the availability only, so they do not keep the need non-negative.
  \<^verbatim>\<open>simulate_request\<close>, which also checks the request against the need, preserves both
  the equation and the non-negative need (allocation within the maximum demand).
\<close>

theorem C4_need_invariant:
  "(fcfs_allocation ps rs reqs = (Returned results, ps', rs')
      \<and> (\<forall>p \<in> set ps. need_consistent p)
     \<longrightarrow> (\<forall>p \<in> set ps'. need_consistent p))
   \<and> (priority_allocation ps rs reqs = (Returned results, ps', rs')
      \<and> (\<forall>p \<in> set ps. need_consistent p)
     \<longrightarrow> (\<forall>p \<in> set ps'. need_consistent p))
   \<and> (D_simulate_request qs rs process_id request = (out, qs', rs')
      \<and> (\<forall>p \<in> set qs. need_consistent p \<and> need_nonneg p)
     \<longrightarrow> (\<forall>p \<in> set qs'. need_consistent p \<and> need_nonneg p))"
proof (intro conjI impI)
  assume "fcfs_allocation ps rs reqs = (Returned results, ps', rs')
      \<and> (\<forall>p \<in> set ps. need_consistent p)"
  then show "\<forall>p \<in> set ps'. need_consistent p"
    using fcfs_allocation_consistent by blast
next
  assume "priority_allocation ps rs reqs = (Returned results, ps', rs')
      \<and> (\<forall>p \<in> set ps. need_consistent p)"
  then show "\<forall>p \<in> set ps'. need_consistent p"
    unfolding priority_allocation_def using priority_loop_consistent by blast
next
  assume "D_simulate_request qs rs process_id request = (out, qs', rs')
      \<and> (\<forall>p \<in> set qs. need_consistent p \<and> need_nonneg p)"
  then show "\<forall>p \<in> set qs'. need_consistent p \<and> need_nonneg p"
    using simulate_request_need by blast
qed

theorem C4_need_invariant_witness:
  "list_all need_consistent priority_processes
   \<and> fcfs_allocation priority_processes one_resource [(''P1'', [1])]
     = (Returned [\<lparr>granted = True, admission_message = FcfsGranted ''P1''\<rparr>],
        priority_processes[0 := (priority_processes ! 0)
           \<lparr>allocated_resources := [1], need_resources := [0]\<rparr>],
        [\<lparr>rid = ''R1'', total_instances = 1, available_instances = 0\<rparr>])
   \<and> priority_allocation priority_processes one_resource [(''P1'', [1])]
     = (Returned [\<lparr>granted = True, admission_message = PriorityGranted ''P1'' 1\<rparr>],
        priority_processes[0 := (priority_processes ! 0)
           \<lparr>allocated_resources := [1], need_resources := [0]\<rparr>],
        [\<lparr>rid = ''R1'', total_instances = 1, available_instances = 0\<rparr>])
   \<and> list_all need_consistent (priority_processes[0 := (priority_processes ! 0)
           \<lparr>allocated_resources := [1], need_resources := [0]\<rparr>])
   \<and> list_all need_consistent scenario_A \<and> list_all need_nonneg scenario_A
   \<and> D_simulate_request scenario_A scenario_A_resources ''P1'' [1, 0, 2]
     = (Returned \<lparr>granted = True, admission_message = RequestGranted\<rparr>,
        scenario_B_processes, scenario_B_resources)
   \<and> list_all need_consistent scenario_B_processes
   \<and> list_all need_nonneg scenario_B_processes"
proof -
  let ?p0 = "priority_processes[0 := (priority_processes ! 0)
           \<lparr>allocated_resources := [1], need_resources := [0]\<rparr>]"
  let ?r = "[\<lparr>rid = ''R1'', total_instances = 1, available_instances = 0\<rparr>]"
  have i: "\<forall>p \<in> set priority_processes. need_consistent p"
    by (simp add: priority_processes_def need_consistent_def)
  have f: "fcfs_allocation priority_processes one_resource [(''P1'', [1])]
     = (Returned [\<lparr>granted = True, admission_message = FcfsGranted ''P1''\<rparr>], ?p0, ?r)"
    by code_simp
  have p: "priority_allocation priority_processes one_resource [(''P1'', [1])]
     = (Returned [\<lparr>granted = True, admission_message = PriorityGranted ''P1'' 1\<rparr>], ?p0, ?r)"
    by code_simp
  have j: "\<forall>p \<in> set scenario_A. need_consistent p \<and> need_nonneg p"
    by (simp add: scenario_A_def need_consistent_def need_nonneg_def)
  have s: "D_simulate_request scenario_A scenario_A_resources ''P1'' [1, 0, 2]
     = (Returned \<lparr>granted = True, admission_message = RequestGranted\<rparr>,
        scenario_B_processes, scenario_B_resources)"
    by code_simp
  note t1 = C4_need_invariant[THEN conjunct1, rule_format, OF conjI, OF f i]
  note t2 = C4_need_invariant[THEN conjunct2, THEN conjunct1, rule_format, OF conjI, OF p i]
  note t3 = C4_need_invariant[THEN conjunct2, THEN conjunct2, rule_format, OF conjI, OF s j]
  from i f p j s t1 t2 t3 show ?thesis unfolding list_all_iff by blast
qed

subsection \<open>Round robin\<close>

lemma rr_loop_starves_aux:
  assumes "rr_loop tq queue ps rs res = Some y"
  shows "queue = [] \<or> \<not> all_ineligible queue ps rs"
proof (rule rr_loop.raw_induct[where P = "\<lambda>tq queue ps rs res y.
           queue = [] \<or> \<not> all_ineligible queue ps rs", OF _ assms], goal_cases)
  case (1 rr tq queue ps rs res y)
  show ?case
  proof (rule ccontr)
    assume "\<not> (queue = [] \<or> \<not> all_ineligible queue ps rs)"
    then obtain a queue' where q: "queue = a # queue'" and inel: "all_ineligible queue ps rs"
      by (cases queue) auto
    obtain rpid request where a: "a = (rpid, request)" by (cases a)
    from inel q a obtain k where k: "index_of_pid rpid ps = Some k"
      and ng: "\<not> can_grant request rs" and rest: "all_ineligible queue' ps rs"
      by (auto simp: all_ineligible_def)
    from 1(2) q a k ng have "rr tq (queue' @ [(rpid, request)]) ps rs
          (res @ [\<lparr>granted = False, admission_message = RRDenied rpid\<rparr>]) = Some y"
      by simp
    from 1(1)[OF this] have "\<not> all_ineligible (queue' @ [(rpid, request)]) ps rs" by simp
    with k ng rest show False by (simp add: all_ineligible_def)
  qed
qed

lemma rr_loop_starves:
  "queue \<noteq> [] \<Longrightarrow> all_ineligible queue ps rs \<Longrightarrow> rr_loop tq queue ps rs res = None"
  using rr_loop_starves_aux[of tq queue ps rs res] by (cases "rr_loop tq queue ps rs res") auto

text \<open>
  C7, as stated: \<^verbatim>\<open>round_robin_allocation\<close> terminates on every input, by a bound on
  its iterations and a Starvation outcome. The loop has neither: a request for two
  instances of a resource that has one is denied and put back into the queue at every
  turn, and the call never returns.
\<close>

theorem C7_round_robin_never_returns:
  "round_robin_allocation rr_processes one_resource [(''P1'', [2])] 1 = None"
  unfolding round_robin_allocation_def
  by (rule rr_loop_starves)
     (simp_all add: all_ineligible_def rr_processes_def one_resource_def can_grant_def)

text \<open>
  C7, amended: \<^verbatim>\<open>round_robin_allocation\<close> imposes no bound on its iterations and has no
  Starvation outcome; its loop ends only when the queue is empty. Whenever the batch is
  not empty and every request in it names a known process and is not eligible (some
  component exceeds the available instances), every request is put back unchanged and
  the call never returns, whatever the time quantum.
\<close>

theorem C7_round_robin_starvation:
  "requests \<noteq> [] \<and> all_ineligible requests processes resources
     \<longrightarrow> round_robin_allocation processes resources requests time_quantum = None"
  unfolding round_robin_allocation_def using rr_loop_starves by blast

theorem C7_round_robin_starvation_witness:
  "[(''P1'', [2]), (''P2'', [3::int])] \<noteq> []
   \<and> all_ineligible [(''P1'', [2]), (''P2'', [3])] rr_two_processes one_resource
   \<and> round_robin_allocation rr_two_processes one_resource [(''P1'', [2]), (''P2'', [3])] 4
       = None"
proof -
  have a: "all_ineligible [(''P1'', [2]), (''P2'', [3])] rr_two_processes one_resource"
    by (simp add: all_ineligible_def rr_two_processes_def one_resource_def can_grant_def)
  have n: "[(''P1'', [2]), (''P2'', [3::int])] \<noteq> []" by simp
  from C7_round_robin_starvation[of "[(''P1'', [2]), (''P2'', [3])]" rr_two_processes
         one_resource 4, rule_format, OF conjI, OF n a] a
  show ?thesis by simp
qed

subsection \<open>The safety check follows the scan contract\<close>

declare check_safety_from.simps [simp del]

lemma all_need_le_work_eq:
  "length needs + j = length work \<Longrightarrow>
     all_need_le_work j needs work = Returned (list_all2 (\<le>) needs (drop j work))"
proof (induction needs arbitrary: j)
  case Nil then show ?case by simp
next
  case (Cons n ns)
  then have j: "j < length work" by simp
  then have d: "drop j work = work ! j # drop (Suc j) work" by (simp add: Cons_nth_drop_Suc)
  from Cons.prems have "length ns + Suc j = length work" by simp
  from Cons.IH[OF this] j d show ?case by simp
qed

lemma add_allocated_eq:
  "length work = n \<Longrightarrow> n \<le> length alloc \<Longrightarrow> j \<le> n \<Longrightarrow>
     add_allocated [j..<n] work alloc
       = Returned (take j work @ map2 (+) (drop j work) (drop j alloc))"
proof (induction "n - j" arbitrary: j work)
  case 0
  then show ?case by simp
next
  case (Suc d)
  then have j: "j < n" "j < length work" "j < length alloc" by simp_all
  let ?w = "work[j := work ! j + alloc ! j]"
  have "add_allocated [Suc j..<n] ?w alloc
       = Returned (take (Suc j) ?w @ map2 (+) (drop (Suc j) ?w) (drop (Suc j) alloc))"
    using Suc.hyps(2) Suc.prems j by (intro Suc.hyps(1)) simp_all
  moreover have "take (Suc j) ?w = take j work @ [work ! j + alloc ! j]"
    using j by (simp add: take_Suc_conv_app_nth)
  moreover have "drop j work = work ! j # drop (Suc j) work"
    "drop j alloc = alloc ! j # drop (Suc j) alloc"
    using j by (simp_all add: Cons_nth_drop_Suc)
  ultimately show ?case using j by (simp add: upt_conv_Cons)
qed

lemma find_upt_Suc:
  "find P [0..<Suc n] = (if P 0 then Some 0 else map_option Suc (find (\<lambda>k. P (Suc k)) [0..<n]))"
proof -
  have "[0..<Suc n] = 0 # map Suc [0..<n]"
    by (simp add: upt_conv_Cons map_Suc_upt del: upt_Suc)
  moreover have "find P (map Suc xs) = map_option Suc (find (\<lambda>k. P (Suc k)) xs)" for xs
    by (induction xs) simp_all
  ultimately show ?thesis by (simp del: upt_Suc)
qed

lemma D_scan_eq:
  assumes "\<forall>p \<in> set qs. length (need_resources p) = length work
                        \<and> length (allocated_resources p) = length work"
  shows "D_scan i qs finish work
       = Returned (case find (\<lambda>k. \<not> finish ! (i + k) \<and> eligible (qs ! k) work) [0..<length qs] of
                     None \<Rightarrow> None
                   | Some k \<Rightarrow> Some (i + k, map2 (+) work (allocated_resources (qs ! k))))"
  using assms
proof (induction qs arbitrary: i)
  case Nil then show ?case by simp
next
  case (Cons q qs)
  have n: "all_need_le_work 0 (need_resources q) work = Returned (eligible q work)"
    using Cons.prems by (simp add: all_need_le_work_eq eligible_def)
  have a: "add_allocated [0..<length work] work (allocated_resources q)
             = Returned (map2 (+) work (allocated_resources q))"
    using Cons.prems add_allocated_eq[of work "length work" "allocated_resources q" 0] by simp
  have ih: "D_scan (Suc i) qs finish work
       = Returned (case find (\<lambda>k. \<not> finish ! (Suc i + k) \<and> eligible (qs ! k) work) [0..<length qs] of
                     None \<Rightarrow> None
                   | Some k \<Rightarrow> Some (Suc i + k, map2 (+) work (allocated_resources (qs ! k))))"
    using Cons.prems by (intro Cons.IH) simp
  show ?case
    unfolding length_Cons find_upt_Suc
    using n a ih by (auto split: option.splits)
qed


lemma D_bankers_loop_refines:
  assumes "\<forall>p \<in> set ps. length (need_resources p) = length work
                        \<and> length (allocated_resources p) = length work"
    and "length finish = length ps"
    and "finished = {i. i < length ps \<and> finish ! i}"
    and "length sq = card finished"
  shows "D_bankers_loop ps work finish sq
       = Returned (to_result (check_safety_from ps work finished sq))"
  using assms
proof (induction ps work finished sq arbitrary: finish rule: check_safety_from.induct)
  case (1 ps working finished order)
  let ?n = "length ps"
  have sub: "finished \<subseteq> {..<?n}" using "1.prems"(3) by auto
  show ?case
  proof (cases "list_all (\<lambda>i. i \<in> finished) [0..<?n]")
    case True
    then have "finished = {..<?n}" using sub by (auto simp: list_all_iff)
    then have "length order = ?n" using "1.prems"(4) by simp
    with True show ?thesis
      by (subst D_bankers_loop.simps, subst check_safety_from.simps) simp
  next
    case False
    then have "finished \<noteq> {..<?n}" by (auto simp: list_all_iff)
    with sub have "finished \<subset> {..<?n}" by blast
    then have "card finished < card {..<?n}" by (intro psubset_card_mono) simp_all
    then have lt: "length order < ?n" using "1.prems"(4) by simp
    have fe: "find (\<lambda>k. \<not> finish ! (0 + k) \<and> eligible (ps ! k) working) [0..<?n]
            = find (\<lambda>i. i \<notin> finished \<and> eligible (ps ! i) working) [0..<?n]"
      using "1.prems"(3) by (intro find_cong) auto
    note sc = D_scan_eq[OF "1.prems"(1), of 0 finish, unfolded fe]
    show ?thesis
    proof (cases "find (\<lambda>i. i \<notin> finished \<and> eligible (ps ! i) working) [0..<?n]")
      case None
      with False lt sc show ?thesis
        by (subst D_bankers_loop.simps, subst check_safety_from.simps) simp
    next
      case (Some i)
      then have i: "i < ?n" "i \<notin> finished" by (auto dest: find_in_set)
      let ?w = "map2 (+) working (allocated_resources (ps ! i))"
      have lw: "length ?w = length working" using "1.prems"(1) i(1) by simp
      have "D_bankers_loop ps ?w (finish[i := True]) (order @ [pid (ps ! i)])
          = Returned (to_result (check_safety_from ps ?w (insert i finished)
                                   (order @ [pid (ps ! i)])))"
      proof (rule "1.IH"[OF False Some])
        show "\<forall>p\<in>set ps. length (need_resources p) = length ?w
                \<and> length (allocated_resources p) = length ?w"
          using "1.prems"(1) lw by simp
        show "length (finish[i := True]) = length ps" using "1.prems"(2) by simp
        show "insert i finished = {k. k < length ps \<and> finish[i := True] ! k}"
          using "1.prems"(2,3) i(1) by (auto simp: nth_list_update)
        have "finite finished" using sub finite_subset by blast
        then show "length (order @ [pid (ps ! i)]) = card (insert i finished)"
          using i(2) "1.prems"(4) by simp
      qed
      with False lt sc Some show ?thesis
        by (subst D_bankers_loop.simps, subst check_safety_from.simps) simp
    qed
  qed
qed

lemma D_bankers_algorithm_refines:
  assumes "well_shaped ps rs"
  shows "D_bankers_algorithm ps rs = Returned (to_result (check_safety ps rs))"
  unfolding D_bankers_algorithm_def check_safety_def
  using assms by (intro D_bankers_loop_refines) (auto simp: well_shaped_def list_all_iff)

lemma RA_bankers_algorithm_refines:
  assumes "well_shaped ps rs"
  shows "RA_bankers_algorithm ps rs = Returned (to_result (check_safety ps rs))"
  using D_bankers_algorithm_refines[OF assms] by (simp add: D_bankers_eq_RA_bankers)

text \<open>
  C1: \<^verbatim>\<open>bankers_algorithm\<close>, in both modules, follows the scan contract of the
  specification. On every ledger of the input schema it returns, without an exception,
  the answer of \<open>check_safety\<close>: the working vector starts as the availability and no
  process is finished; the first unfinished process, in the order supplied, whose need
  is within the working vector at every resource is selected, its allocation is added
  to the working vector, it is marked finished, its pid is appended, and the scan
  starts again from the beginning; a scan that selects nobody gives the unsafe result
  with no sequence, and when all processes are finished the result is safe with exactly
  the sequence produced.
\<close>

theorem C1_bankers_follows_scan_contract:
  assumes "well_shaped ps rs"
  shows "D_bankers_algorithm ps rs = Returned (to_result (check_safety ps rs))
       \<and> RA_bankers_algorithm ps rs = Returned (to_result (check_safety ps rs))"
  using D_bankers_algorithm_refines[OF assms] RA_bankers_algorithm_refines[OF assms] by simp

theorem C1_bankers_follows_scan_contract_witness:
  "well_shaped scenario_A scenario_A_resources
   \<and> check_safety scenario_A scenario_A_resources = Safe [''P1'', ''P3'', ''P0'', ''P2'', ''P4'']
   \<and> D_bankers_algorithm scenario_A scenario_A_resources
       = Returned \<lparr>safe = True, safe_sequence = Some [''P1'', ''P3'', ''P0'', ''P2'', ''P4''],
                   safety_message = SystemSafe\<rparr>
   \<and> RA_bankers_algorithm scenario_A scenario_A_resources
       = Returned \<lparr>safe = True, safe_sequence = Some [''P1'', ''P3'', ''P0'', ''P2'', ''P4''],
                   safety_message = SystemSafe\<rparr>
   \<and> well_shaped (fst (request_applied scenario_A scenario_A_resources 0 [1, 0, 2]))
        (snd (request_applied scenario_A scenario_A_resources 0 [1, 0, 2]))
   \<and> check_safety (fst (request_applied scenario_A scenario_A_resources 0 [1, 0, 2]))
        (snd (request_applied scenario_A scenario_A_resources 0 [1, 0, 2])) = Unsafe
   \<and> D_bankers_algorithm (fst (request_applied scenario_A scenario_A_resources 0 [1, 0, 2]))
        (snd (request_applied scenario_A scenario_A_resources 0 [1, 0, 2]))
       = Returned \<lparr>safe = False, safe_sequence = None, safety_message = SystemNotSafe\<rparr>"
proof -
  let ?ps = "fst (request_applied scenario_A scenario_A_resources 0 [1, 0, 2])"
  let ?rs = "snd (request_applied scenario_A scenario_A_resources 0 [1, 0, 2])"
  have w: "well_shaped scenario_A scenario_A_resources"
    by (simp add: well_shaped_def scenario_A_def scenario_A_resources_def)
  have c: "check_safety scenario_A scenario_A_resources
             = Safe [''P1'', ''P3'', ''P0'', ''P2'', ''P4'']"
    by code_simp
  have w': "well_shaped ?ps ?rs"
    by (simp add: well_shaped_def request_applied_def scenario_A_def scenario_A_resources_def)
  have c': "check_safety ?ps ?rs = Unsafe"
    by code_simp
  from C1_bankers_follows_scan_contract[OF w] C1_bankers_follows_scan_contract[OF w'] w c w' c'
  show ?thesis by simp
qed

subsection \<open>Deadlock detection on the wait-for graph\<close>

lemma is_path_snoc:
  "is_path g (xs @ [y]) = (is_path g xs \<and> (xs = [] \<or> y \<in> set (neighbors g (last xs))))"
  by (induction g xs rule: is_path.induct) auto

lemma is_path_reach:
  "is_path g path \<Longrightarrow> v \<in> set path \<Longrightarrow> (v, last path) \<in> (edges g)\<^sup>*"
proof (induction g path arbitrary: v rule: is_path.induct)
  case (1 g) then show ?case by simp
next
  case (2 g u) then show ?case by simp
next
  case (3 g u w rest)
  then have e: "(u, w) \<in> edges g" and p: "is_path g (w # rest)" by (simp_all add: edges_def)
  have wl: "(w, last (w # rest)) \<in> (edges g)\<^sup>*" using "3.IH"[OF p, of w] by simp
  show ?case
  proof (cases "v = u")
    case True
    with e wl show ?thesis by (simp add: converse_rtrancl_into_rtrancl)
  next
    case False
    with "3.prems" have "v \<in> set (w # rest)" by simp
    from "3.IH"[OF p this] show ?thesis by simp
  qed
qed

lemma snapshot_cycle:
  assumes "snapshot_from g stk s"
  shows "has_directed_cycle g"
proof -
  from assms obtain rest v where p: "is_path g (stk @ rest)" and v: "v \<in> set (stk @ rest)"
    and b: "v \<in> set (neighbors g (last (stk @ rest)))"
    by (auto simp: snapshot_from_def)
  from is_path_reach[OF p v] have "(v, last (stk @ rest)) \<in> (edges g)\<^sup>*" .
  moreover from b have "(last (stk @ rest), v) \<in> edges g" by (simp add: edges_def)
  ultimately have "(v, v) \<in> (edges g)\<^sup>+" by (rule rtrancl_into_trancl1)
  then show ?thesis by (auto simp: has_directed_cycle_def)
qed

lemma closed_reach:
  assumes "\<forall>u \<in> B. set (neighbors g u) \<subseteq> B" "(w, x) \<in> (edges g)\<^sup>*" "w \<in> B"
  shows "x \<in> B"
  using assms(2,3,1)
  by (induction rule: rtrancl_induct) (auto simp: edges_def)

lemma black_closed_finish:
  assumes bc: "black_closed g V' (insert n S)"
    and sn: "set (neighbors g n) \<subseteq> V' - insert n S"
    and n: "n \<in> V'" "n \<notin> S"
  shows "black_closed g V' S"
proof -
  let ?B = "V' - insert n S"
  have eq: "V' - S = insert n ?B" using n by auto
  have cl: "\<forall>u \<in> ?B. set (neighbors g u) \<subseteq> ?B" using bc by (simp add: black_closed_def)
  have "(n, n) \<notin> (edges g)\<^sup>+"
  proof
    assume "(n, n) \<in> (edges g)\<^sup>+"
    then obtain w where w: "(n, w) \<in> edges g" "(w, n) \<in> (edges g)\<^sup>*"
      by (auto dest: tranclD)
    from w(1) sn have "w \<in> ?B" by (auto simp: edges_def)
    from closed_reach[OF cl w(2) this] show False by simp
  qed
  moreover have "\<forall>u \<in> ?B. (u, u) \<notin> (edges g)\<^sup>+" using bc by (simp add: black_closed_def)
  moreover have "\<forall>u \<in> insert n ?B. set (neighbors g u) \<subseteq> insert n ?B"
    using cl sn by auto
  ultimately show ?thesis unfolding black_closed_def eq by simp
qed


lemma snapshot_from_snoc: "snapshot_from g (stk @ [n]) s \<Longrightarrow> snapshot_from g stk s"
  unfolding snapshot_from_def
  by (metis append.assoc)

lemma card_Diff_mono:
  assumes "finite U" "V \<subseteq> V'"
  shows "card (U - V') \<le> card (U - V)"
  using assms by (intro card_mono) auto

lemma for_neighbors_spec:
  assumes call: "\<And>n V S stk. \<lbrakk>n \<in> U; n \<notin> V; V \<subseteq> U; S \<subseteq> V; set stk = S; distinct stk;
        is_path g (stk @ [n]); black_closed g V S; card (U - V) \<le> d\<rbrakk>
      \<Longrightarrow> \<exists>b V' S'. call n (V, S) = Returned (b, V', S') \<and> V \<subseteq> V' \<and> V' \<subseteq> U
            \<and> (if b then snapshot_from g (stk @ [n]) S'
                else S' = S \<and> n \<in> V' \<and> black_closed g V' S)"
    and fin: "finite U"
    and stk: "stk \<noteq> []" "set stk = S" "distinct stk" "is_path g stk"
    and ns: "set ns \<subseteq> set (neighbors g (last stk))" "set ns \<subseteq> U"
    and V: "S \<subseteq> V" "V \<subseteq> U" "black_closed g V S" "card (U - V) \<le> d"
  shows "\<exists>b V' S'. for_neighbors call ns (V, S) = Returned (b, V', S') \<and> V \<subseteq> V' \<and> V' \<subseteq> U
            \<and> (if b then snapshot_from g stk S'
                else S' = S \<and> set ns \<subseteq> V' - S \<and> black_closed g V' S)"
  using ns V
proof (induction ns arbitrary: V)
  case Nil
  then show ?case by (intro exI[of _ False] exI[of _ V] exI[of _ S]) simp
next
  case (Cons n ns)
  from Cons.prems have n: "n \<in> set (neighbors g (last stk))" "n \<in> U"
    and ns': "set ns \<subseteq> set (neighbors g (last stk))" "set ns \<subseteq> U" by simp_all
  show ?case
  proof (cases "n \<in> V")
    case False
    have path: "is_path g (stk @ [n])" using stk n(1) by (simp add: is_path_snoc)
    from call[OF n(2) False Cons.prems(4) Cons.prems(3) stk(2,3) path Cons.prems(5,6)]
    obtain b V1 S1 where r: "call n (V, S) = Returned (b, V1, S1)" and v1: "V \<subseteq> V1" "V1 \<subseteq> U"
      and post: "if b then snapshot_from g (stk @ [n]) S1
                 else S1 = S \<and> n \<in> V1 \<and> black_closed g V1 S" by blast
    show ?thesis
    proof (cases b)
      case True
      with post have "snapshot_from g stk S1" by (simp add: snapshot_from_snoc)
      with r True False v1 show ?thesis by auto
    next
      case b: False
      with post have s1: "S1 = S" "n \<in> V1" "black_closed g V1 S" by simp_all
      have "card (U - V1) \<le> d"
        using card_Diff_mono[OF fin v1(1)] Cons.prems(6) by simp
      from Cons.IH[OF ns' _ v1(2) s1(3) this] Cons.prems(3) v1(1)
      obtain b2 V2 S2 where r2: "for_neighbors call ns (V1, S) = Returned (b2, V2, S2)"
        and v2: "V1 \<subseteq> V2" "V2 \<subseteq> U"
        and post2: "if b2 then snapshot_from g stk S2
                else S2 = S \<and> set ns \<subseteq> V2 - S \<and> black_closed g V2 S" by blast
      have "n \<notin> S" using False Cons.prems(3) by auto
      with s1(2) v2(1) have "n \<in> V2 - S" by auto
      with r r2 b False s1(1) v1 v2 post2 show ?thesis by (auto split: if_splits)
    qed
  next
    case True
    show ?thesis
    proof (cases "n \<in> S")
      case inS: True
      have "snapshot_from g stk S"
        unfolding snapshot_from_def
        using stk n(1) inS by (intro exI[of _ "[]"]) auto
      with True inS Cons.prems(4) show ?thesis by auto
    next
      case notS: False
      from Cons.IH[OF ns' Cons.prems(3,4,5,6)]
      obtain b2 V2 S2 where r2: "for_neighbors call ns (V, S) = Returned (b2, V2, S2)"
        and v2: "V \<subseteq> V2" "V2 \<subseteq> U"
        and post2: "if b2 then snapshot_from g stk S2
                else S2 = S \<and> set ns \<subseteq> V2 - S \<and> black_closed g V2 S" by blast
      from True notS v2(1) have "n \<in> V2 - S" by auto
      with r2 True notS v2 post2 show ?thesis by (auto split: if_splits)
    qed
  qed
qed

lemma has_cycle_spec:
  assumes fin: "finite U" and cl: "\<And>u. set (neighbors g u) \<subseteq> U"
  shows "\<lbrakk>n \<in> U; n \<notin> V; V \<subseteq> U; S \<subseteq> V; set stk = S; distinct stk;
        is_path g (stk @ [n]); black_closed g V S; card (U - V) \<le> d\<rbrakk>
      \<Longrightarrow> \<exists>b V' S'. has_cycle d g n (V, S) = Returned (b, V', S') \<and> V \<subseteq> V' \<and> V' \<subseteq> U
            \<and> (if b then snapshot_from g (stk @ [n]) S'
                else S' = S \<and> n \<in> V' \<and> black_closed g V' S)"
proof (induction d arbitrary: n V S stk)
  case 0
  then have "n \<in> U - V" by simp
  moreover have "finite (U - V)" using fin by simp
  ultimately have "card (U - V) > 0" by (metis card_gt_0_iff empty_iff)
  with 0 show ?case by simp
next
  case (Suc d)
  let ?V1 = "insert n V" and ?S1 = "insert n S" and ?stk = "stk @ [n]"
  have nS: "n \<notin> S" using Suc.prems(2,4) by auto
  have bc1: "black_closed g ?V1 ?S1"
  proof -
    have "?V1 - ?S1 = V - S" using Suc.prems(2) by auto
    with Suc.prems(8) show ?thesis by (simp add: black_closed_def)
  qed
  have card1: "card (U - ?V1) \<le> d"
  proof -
    have "U - ?V1 = (U - V) - {n}" by auto
    moreover have "n \<in> U - V" using Suc.prems(1,2) by simp
    moreover have "finite (U - V)" using fin by simp
    ultimately have "card (U - ?V1) = card (U - V) - 1" by (simp add: card_Diff_singleton)
    with Suc.prems(9) show ?thesis by simp
  qed
  have "\<exists>b V' S'. for_neighbors (has_cycle d g) (neighbors g n) (?V1, ?S1) = Returned (b, V', S')
            \<and> ?V1 \<subseteq> V' \<and> V' \<subseteq> U
            \<and> (if b then snapshot_from g ?stk S'
                else S' = ?S1 \<and> set (neighbors g n) \<subseteq> V' - ?S1 \<and> black_closed g V' ?S1)"
  proof (rule for_neighbors_spec[where d = d and U = U])
    fix n' V' S' stk'
    assume "n' \<in> U" "n' \<notin> V'" "V' \<subseteq> U" "S' \<subseteq> V'" "set stk' = S'" "distinct stk'"
      "is_path g (stk' @ [n'])" "black_closed g V' S'" "card (U - V') \<le> d"
    then show "\<exists>b V'' S''. has_cycle d g n' (V', S') = Returned (b, V'', S'') \<and> V' \<subseteq> V''
         \<and> V'' \<subseteq> U
         \<and> (if b then snapshot_from g (stk' @ [n']) S''
             else S'' = S' \<and> n' \<in> V'' \<and> black_closed g V'' S')"
      by (rule Suc.IH)
  next
    show "finite U" by (rule fin)
    show "?stk \<noteq> []" by simp
    show "set ?stk = ?S1" using Suc.prems(5) by simp
    show "distinct ?stk" using Suc.prems(5,6) nS by simp
    show "is_path g ?stk" by (rule Suc.prems(7))
    show "set (neighbors g n) \<subseteq> set (neighbors g (last ?stk))" by simp
    show "set (neighbors g n) \<subseteq> U" by (rule cl)
    show "?S1 \<subseteq> ?V1" using Suc.prems(4) by auto
    show "?V1 \<subseteq> U" using Suc.prems(1,3) by simp
    show "black_closed g ?V1 ?S1" by (rule bc1)
    show "card (U - ?V1) \<le> d" by (rule card1)
  qed
  then obtain b V' S' where
    r: "for_neighbors (has_cycle d g) (neighbors g n) (?V1, ?S1) = Returned (b, V', S')"
    and v: "?V1 \<subseteq> V'" "V' \<subseteq> U"
    and post: "if b then snapshot_from g ?stk S'
                else S' = ?S1 \<and> set (neighbors g n) \<subseteq> V' - ?S1 \<and> black_closed g V' ?S1"
    by blast
  show ?case
  proof (cases b)
    case True
    with r v post show ?thesis by auto
  next
    case False
    with post have p: "S' = ?S1" "set (neighbors g n) \<subseteq> V' - ?S1" "black_closed g V' ?S1"
      by simp_all
    have nV: "n \<in> V'" using v(1) by auto
    have "black_closed g V' S" using p(3) p(2) nV nS by (rule black_closed_finish)
    moreover have "?S1 - {n} = S" using nS by auto
    ultimately show ?thesis using r False p(1) v nV by auto
  qed
qed

lemma snapshot_from_nonempty: "snapshot_from g stk s \<Longrightarrow> s \<noteq> {}"
  by (auto simp: snapshot_from_def)

lemma detect_loop_spec:
  assumes fin: "finite U" and cl: "\<And>u. set (neighbors g u) \<subseteq> U" and card: "card U \<le> depth"
  shows "\<lbrakk>set ks \<subseteq> U; V \<subseteq> U; black_closed g V {}\<rbrakk> \<Longrightarrow>
     \<exists>D. detect_loop depth g ks (V, {}) = Returned D \<and>
        (if D = {} then \<exists>V'. V \<subseteq> V' \<and> set ks \<subseteq> V' \<and> black_closed g V' {}
         else \<exists>k \<in> set ks. snapshot_from g [k] D)"
proof (induction ks arbitrary: V)
  case Nil
  then show ?case by auto
next
  case (Cons k ks)
  then have k: "k \<in> U" and ks: "set ks \<subseteq> U" by simp_all
  show ?case
  proof (cases "k \<in> V")
    case True
    from Cons.IH[OF ks Cons.prems(2,3)] obtain D where
      d: "detect_loop depth g ks (V, {}) = Returned D"
      and post: "if D = {} then \<exists>V'. V \<subseteq> V' \<and> set ks \<subseteq> V' \<and> black_closed g V' {}
         else \<exists>k \<in> set ks. snapshot_from g [k] D" by blast
    show ?thesis
    proof (cases "D = {}")
      case e: True
      with post obtain V' where "V \<subseteq> V'" "set ks \<subseteq> V'" "black_closed g V' {}" by auto
      with True have "V \<subseteq> V' \<and> set (k # ks) \<subseteq> V' \<and> black_closed g V' {}" by auto
      with d True e show ?thesis by auto
    next
      case False
      with post d True show ?thesis by auto
    qed
  next
    case False
    have "card (U - V) \<le> card U" using fin by (intro card_mono) auto
    with card have c: "card (U - V) \<le> depth" by simp
    have "\<exists>b V' S'. has_cycle depth g k (V, {}) = Returned (b, V', S') \<and> V \<subseteq> V' \<and> V' \<subseteq> U
            \<and> (if b then snapshot_from g ([] @ [k]) S'
                else S' = {} \<and> k \<in> V' \<and> black_closed g V' {})"
      by (rule has_cycle_spec[OF fin cl k False Cons.prems(2)])
         (simp_all add: Cons.prems(3) c)
    then obtain b V1 S1 where r: "has_cycle depth g k (V, {}) = Returned (b, V1, S1)"
      and v1: "V \<subseteq> V1" "V1 \<subseteq> U"
      and post0: "if b then snapshot_from g ([] @ [k]) S1
                else S1 = {} \<and> k \<in> V1 \<and> black_closed g V1 {}" by blast
    from post0 have post1: "if b then snapshot_from g [k] S1
                else S1 = {} \<and> k \<in> V1 \<and> black_closed g V1 {}" by (cases b) simp_all
    show ?thesis
    proof (cases b)
      case True
      with post1 have s: "snapshot_from g [k] S1" by simp
      then have "S1 \<noteq> {}" by (rule snapshot_from_nonempty)
      with r True False s show ?thesis by auto
    next
      case nb: False
      with post1 have p: "S1 = {}" "k \<in> V1" "black_closed g V1 {}" by simp_all
      from Cons.IH[OF ks v1(2) p(3)] obtain D where
        d: "detect_loop depth g ks (V1, {}) = Returned D"
        and post: "if D = {} then \<exists>V'. V1 \<subseteq> V' \<and> set ks \<subseteq> V' \<and> black_closed g V' {}
           else \<exists>k \<in> set ks. snapshot_from g [k] D" by blast
      show ?thesis
      proof (cases "D = {}")
        case e: True
        with post obtain V' where "V1 \<subseteq> V'" "set ks \<subseteq> V'" "black_closed g V' {}" by auto
        with v1(1) p(2) have "V \<subseteq> V' \<and> set (k # ks) \<subseteq> V' \<and> black_closed g V' {}" by auto
        with d r nb p(1) False e show ?thesis by auto
      next
        case ne: False
        with post d r nb p(1) False show ?thesis by auto
      qed
    qed
  qed
qed

lemma neighbors_in_nodes: "set (neighbors g u) \<subseteq> set (graph_nodes g)"
proof (cases "map_of g u")
  case None then show ?thesis by (simp add: neighbors_def)
next
  case (Some ns)
  then have "(u, ns) \<in> set g" by (rule map_of_SomeD)
  then have "set ns \<subseteq> set (concat (map snd g))" by force
  with Some show ?thesis by (auto simp: neighbors_def graph_nodes_def)
qed

lemma edge_source_is_key: "(u, w) \<in> edges g \<Longrightarrow> u \<in> set (map fst g)"
proof -
  assume "(u, w) \<in> edges g"
  then have "map_of g u \<noteq> None"
    by (cases "map_of g u") (simp_all add: edges_def neighbors_def)
  then show ?thesis by (simp add: map_of_eq_None_iff)
qed

text \<open>
  C9: for every wait-for graph, searched with a recursion depth that the number of its
  processes does not exceed, \<^verbatim>\<open>detect_deadlock_wait_for_graph\<close> returns a result, and
  \<^verbatim>\<open>deadlock_detected\<close> is true if and only if the graph contains a directed cycle; when
  a cycle is found, \<^verbatim>\<open>deadlocked_processes\<close> is the recursion stack at the back-edge: the
  processes of a search path from a key of the dictionary whose last process has an
  edge back into the path (it holds one cycle, possibly with the processes that lead to
  it, and not every deadlocked process).
\<close>

theorem C9_wait_for_graph_detects_cycles:
  assumes "length (graph_nodes g) \<le> depth"
  shows "\<exists>r. detect_deadlock_wait_for_graph depth g = Returned r
           \<and> (deadlock_detected r \<longleftrightarrow> has_directed_cycle g)
           \<and> (deadlock_detected r \<longrightarrow> stack_snapshot g (deadlocked_processes r))"
proof -
  let ?U = "set (graph_nodes g)"
  have fin: "finite ?U" by simp
  have card: "card ?U \<le> depth" using card_length[of "graph_nodes g"] assms by simp
  have keys: "set (map fst g) \<subseteq> ?U" by (auto simp: graph_nodes_def)
  have bc: "black_closed g {} {}" by (simp add: black_closed_def)
  from detect_loop_spec[of ?U g depth "map fst g" "{}", OF fin neighbors_in_nodes card keys _ bc]
  obtain D where d: "detect_loop depth g (map fst g) ({}, {}) = Returned D"
    and post: "if D = {} then \<exists>V'. {} \<subseteq> V' \<and> set (map fst g) \<subseteq> V' \<and> black_closed g V' {}
         else \<exists>k \<in> set (map fst g). snapshot_from g [k] D" by auto
  let ?r = "\<lparr>deadlock_detected = (D \<noteq> {}), deadlocked_processes = D,
             deadlock_message = (if D \<noteq> {} then DeadlockAmong D else NoDeadlock)\<rparr>"
  have r: "detect_deadlock_wait_for_graph depth g = Returned ?r"
    by (simp add: detect_deadlock_wait_for_graph_def d)
  show ?thesis
  proof (cases "D = {}")
    case True
    with post obtain V' where v: "set (map fst g) \<subseteq> V'" "black_closed g V' {}" by auto
    have "\<not> has_directed_cycle g"
    proof
      assume "has_directed_cycle g"
      then obtain u where u: "(u, u) \<in> (edges g)\<^sup>+" by (auto simp: has_directed_cycle_def)
      then obtain w where "(u, w) \<in> edges g" by (auto dest: tranclD)
      then have "u \<in> V'" using v(1) edge_source_is_key by blast
      with v(2) u show False by (simp add: black_closed_def)
    qed
    with r True show ?thesis by simp
  next
    case False
    with post obtain k where k: "k \<in> set (map fst g)" "snapshot_from g [k] D" by auto
    from k(2) have c: "has_directed_cycle g" by (rule snapshot_cycle)
    from k(2) obtain rest where p: "distinct ([k] @ rest)" "is_path g ([k] @ rest)"
      "\<exists>v \<in> set ([k] @ rest). v \<in> set (neighbors g (last ([k] @ rest)))" "D = set ([k] @ rest)"
      by (auto simp: snapshot_from_def)
    have "stack_snapshot g D"
      unfolding stack_snapshot_def
      using p k(1) by (intro exI[of _ "[k] @ rest"]) simp
    with r False c show ?thesis by simp
  qed
qed

theorem C9_wait_for_graph_detects_cycles_witness:
  "length (graph_nodes cyclic_graph) \<le> 3
   \<and> detect_deadlock_wait_for_graph 3 cyclic_graph
       = Returned \<lparr>deadlock_detected = True, deadlocked_processes = {''A'', ''B'', ''C''},
                   deadlock_message = DeadlockAmong {''A'', ''B'', ''C''}\<rparr>
   \<and> has_directed_cycle cyclic_graph
   \<and> stack_snapshot cyclic_graph {''A'', ''B'', ''C''}
   \<and> length (graph_nodes acyclic_graph) \<le> 3
   \<and> detect_deadlock_wait_for_graph 3 acyclic_graph
       = Returned \<lparr>deadlock_detected = False, deadlocked_processes = {},
                   deadlock_message = NoDeadlock\<rparr>
   \<and> \<not> has_directed_cycle acyclic_graph"
proof -
  have l1: "length (graph_nodes cyclic_graph) \<le> 3"
    by (simp add: graph_nodes_def cyclic_graph_def)
  have e1: "detect_deadlock_wait_for_graph 3 cyclic_graph
       = Returned \<lparr>deadlock_detected = True, deadlocked_processes = {''A'', ''B'', ''C''},
                   deadlock_message = DeadlockAmong {''A'', ''B'', ''C''}\<rparr>"
    by (simp add: detect_deadlock_wait_for_graph_def cyclic_graph_def neighbors_def
          numeral_3_eq_3 insert_commute)
  have l2: "length (graph_nodes acyclic_graph) \<le> 3"
    by (simp add: graph_nodes_def acyclic_graph_def)
  have e2: "detect_deadlock_wait_for_graph 3 acyclic_graph
       = Returned \<lparr>deadlock_detected = False, deadlocked_processes = {},
                   deadlock_message = NoDeadlock\<rparr>"
    by (simp add: detect_deadlock_wait_for_graph_def acyclic_graph_def neighbors_def
          numeral_3_eq_3)
  from C9_wait_for_graph_detects_cycles[OF l1] e1
  have c1: "has_directed_cycle cyclic_graph \<and> stack_snapshot cyclic_graph {''A'', ''B'', ''C''}"
    by auto
  from C9_wait_for_graph_detects_cycles[OF l2] e2
  have c2: "\<not> has_directed_cycle acyclic_graph" by auto
  from l1 e1 c1 l2 e2 c2 show ?thesis by blast
qed

subsection \<open>Conservation on the other paths\<close>

text \<open>
  The paths other than \<^verbatim>\<open>fair_share_allocation\<close> move every instance they give to a
  process out of the availability of its resource, and back on a release, so they keep
  the conservation invariant on every ledger of the input schema: the single request,
  the fcfs, priority and round-robin policies and the release.
\<close>

lemma nth_apply_vec:
  "i < length xs \<Longrightarrow>
     apply_vec f xs rq ! i = (if i < length rq then f (xs ! i) (rq ! i) else xs ! i)"
proof (induction f xs rq arbitrary: i rule: apply_vec.induct)
  case (1 f reqs) then show ?case by simp
next
  case (2 f x xs) then show ?case by simp
next
  case (3 f x xs r rs)
  then show ?case by (cases i) simp_all
qed

lemma sum_list_map_update:
  fixes f :: "'a \<Rightarrow> int"
  shows "k < length ps \<Longrightarrow>
     sum_list (map f (ps[k := p'])) = sum_list (map f ps) - f (ps ! k) + f p'"
proof (induction ps arbitrary: k)
  case Nil then show ?case by simp
next
  case (Cons p ps)
  then show ?case by (cases k) simp_all
qed

lemma ledger_ok_request_applied:
  assumes ok: "ledger_ok ps rs" and k: "k < length ps" and l: "length req \<le> length rs"
  shows "ledger_ok (fst (request_applied ps rs k req)) (snd (request_applied ps rs k req))"
proof -
  let ?p' = "(ps ! k)\<lparr>allocated_resources := apply_vec (+) (allocated_resources (ps ! k)) req,
                      need_resources := apply_vec (-) (need_resources (ps ! k)) req\<rparr>"
  let ?rs' = "apply_vec sub_available rs req"
  from ok have c: "\<And>i. i < length rs \<Longrightarrow> available_instances (rs ! i)
        + sum_list (map (\<lambda>p. allocated_resources p ! i) ps) = total_instances (rs ! i)"
    and w: "\<And>p. p \<in> set ps \<Longrightarrow> length (need_resources p) = length rs
                  \<and> length (allocated_resources p) = length rs"
    by (auto simp: ledger_ok_def conservation_def well_shaped_def list_all_iff)
  from w k have wk: "length (need_resources (ps ! k)) = length rs"
    "length (allocated_resources (ps ! k)) = length rs" by simp_all
  have w': "well_shaped (ps[k := ?p']) ?rs'"
    unfolding well_shaped_def list_all_iff
  proof
    fix p assume "p \<in> set (ps[k := ?p'])"
    then have "p = ?p' \<or> p \<in> set ps" using set_update_subset_insert[of ps k ?p'] by auto
    then show "length (need_resources p) = length ?rs'
             \<and> length (allocated_resources p) = length ?rs'"
      using w wk by auto
  qed
  have c': "conservation (ps[k := ?p']) ?rs'"
    unfolding conservation_def list_all_iff
  proof
    fix i assume "i \<in> set [0..<length ?rs']"
    then have i: "i < length rs" by simp
    have "sum_list (map (\<lambda>p. allocated_resources p ! i) (ps[k := ?p']))
        = sum_list (map (\<lambda>p. allocated_resources p ! i) ps)
            - allocated_resources (ps ! k) ! i + allocated_resources ?p' ! i"
      using k by (rule sum_list_map_update)
    moreover have "allocated_resources ?p' ! i
        = (if i < length req then allocated_resources (ps ! k) ! i + req ! i
           else allocated_resources (ps ! k) ! i)"
      using i wk by (simp add: nth_apply_vec)
    moreover have "?rs' ! i = (if i < length req then sub_available (rs ! i) (req ! i) else rs ! i)"
      using i by (simp add: nth_apply_vec)
    ultimately show "available_instances (?rs' ! i)
        + sum_list (map (\<lambda>p. allocated_resources p ! i) (ps[k := ?p']))
        = total_instances (?rs' ! i)"
      using c[OF i] by (simp add: sub_available_def)
  qed
  from c' w' show ?thesis by (simp add: ledger_ok_def request_applied_def)
qed

lemma ledger_ok_allocate_loop:
  assumes "allocate_loop 0 req (ps ! k) rs = (None, p', rs')" "ledger_ok ps rs" "k < length ps"
  shows "ledger_ok (ps[k := p']) rs'"
proof -
  note a = allocate_loop_0[OF assms(1)]
  from ledger_ok_request_applied[OF assms(2,3) a(5)] a(1,2) show ?thesis
    by (simp add: request_applied_def)
qed


lemma release_loop_as_allocate_loop:
  "release_loop i rels p rs = allocate_loop i (map uminus rels) p rs"
  by (induction rels arbitrary: i p rs) (simp_all add: Let_def)

lemma simulate_request_ledger_ok:
  assumes "D_simulate_request ps rs process_id request = (out, ps', rs')" "ledger_ok ps rs"
  shows "ledger_ok ps' rs'"
proof (cases "is_granted out")
  case False
  with D_simulate_request_cases[OF assms(1)] assms(2) show ?thesis by simp
next
  case True
  with D_simulate_request_cases[OF assms(1)] obtain k where
    k: "index_of_pid process_id ps = Some k" and l: "length request \<le> length rs"
    and ap: "(ps', rs') = request_applied ps rs k request" by blast
  from k have "k < length ps" by (auto dest: index_of_pid_Some)
  from ledger_ok_request_applied[OF assms(2) this l] ap show ?thesis
    by (metis fst_conv snd_conv)
qed

lemma fcfs_loop_ledger_ok:
  "fcfs_loop ix reqs ps rs res = (Returned results, ps', rs') \<Longrightarrow>
   set ix \<subseteq> {..<length ps} \<Longrightarrow> ledger_ok ps rs \<Longrightarrow> ledger_ok ps' rs'"
proof (induction reqs arbitrary: ps rs res)
  case Nil then show ?case by simp
next
  case (Cons a reqs)
  obtain rpid request where a: "a = (rpid, request)" by (cases a)
  show ?case
  proof (cases "find (\<lambda>k. pid (ps ! k) = rpid) ix")
    case None
    with Cons.prems a show ?thesis by (auto dest: Cons.IH)
  next
    case (Some k)
    then have k: "k < length ps" using Cons.prems(2) by (auto dest: find_in_set)
    show ?thesis
    proof (cases "can_grant request rs")
      case False
      with Cons.prems a Some show ?thesis by (auto dest: Cons.IH)
    next
      case True
      obtain e p1 rs1 where al: "allocate_loop 0 request (ps ! k) rs = (e, p1, rs1)"
        by (cases "allocate_loop 0 request (ps ! k) rs") auto
      show ?thesis
      proof (cases e)
        case (Some err)
        with Cons.prems a \<open>find (\<lambda>k. pid (ps ! k) = rpid) ix = Some k\<close> True al
        show ?thesis by simp
      next
        case None
        with al Cons.prems(3) k have inv: "ledger_ok (ps[k := p1]) rs1"
          by (auto intro: ledger_ok_allocate_loop)
        from Cons.prems(1) a \<open>find (\<lambda>k. pid (ps ! k) = rpid) ix = Some k\<close> True al None
        have "fcfs_loop ix reqs (ps[k := p1]) rs1
                (res @ [\<lparr>granted = True, admission_message = FcfsGranted rpid\<rparr>])
              = (Returned results, ps', rs')" by simp
        from Cons.IH[OF this _ inv] Cons.prems(2) show ?thesis by simp
      qed
    qed
  qed
qed

lemma priority_loop_ledger_ok:
  "priority_loop prs ps rs res = (Returned results, ps', rs') \<Longrightarrow>
   ledger_ok ps rs \<Longrightarrow> ledger_ok ps' rs'"
proof (induction prs arbitrary: ps rs res)
  case Nil then show ?case by simp
next
  case (Cons a prs)
  obtain prio rpid request where a: "a = (prio, rpid, request)" by (cases a)
  show ?case
  proof (cases "index_of_pid rpid ps")
    case None
    with Cons.prems a show ?thesis by auto
  next
    case (Some k)
    then have k: "k < length ps" by (auto dest: index_of_pid_Some)
    show ?thesis
    proof (cases "can_grant request rs")
      case False
      with Cons.prems a Some show ?thesis by (auto dest: Cons.IH)
    next
      case True
      obtain e p1 rs1 where al: "allocate_loop 0 request (ps ! k) rs = (e, p1, rs1)"
        by (cases "allocate_loop 0 request (ps ! k) rs") auto
      show ?thesis
      proof (cases e)
        case (Some err)
        with Cons.prems a \<open>index_of_pid rpid ps = Some k\<close> True al show ?thesis by simp
      next
        case None
        with al Cons.prems(2) k have inv: "ledger_ok (ps[k := p1]) rs1"
          by (auto intro: ledger_ok_allocate_loop)
        from Cons.prems(1) a \<open>index_of_pid rpid ps = Some k\<close> True al None
        have "priority_loop prs (ps[k := p1]) rs1
                (res @ [\<lparr>granted = True,
                          admission_message = PriorityGranted rpid (priority p1)\<rparr>])
              = (Returned results, ps', rs')" by simp
        from Cons.IH[OF this inv] show ?thesis .
      qed
    qed
  qed
qed

lemma rr_loop_ledger_ok:
  assumes "rr_loop tq queue ps rs res = Some y"
  shows "\<forall>results ps' rs'. y = (Returned results, ps', rs') \<longrightarrow> ledger_ok ps rs
           \<longrightarrow> ledger_ok ps' rs'"
proof (rule rr_loop.raw_induct[where P = "\<lambda>tq queue ps rs res y. \<forall>results ps' rs'.
           y = (Returned results, ps', rs') \<longrightarrow> ledger_ok ps rs \<longrightarrow> ledger_ok ps' rs'",
         OF _ assms], goal_cases)
  case (1 rr tq queue ps rs res y)
  show ?case
  proof (cases queue)
    case Nil
    with 1(2) show ?thesis by auto
  next
    case (Cons a queue')
    obtain rpid request where a: "a = (rpid, request)" by (cases a)
    show ?thesis
    proof (cases "index_of_pid rpid ps")
      case None
      with 1(2) Cons a have "rr tq queue' ps rs
          (res @ [\<lparr>granted = False, admission_message = ProcessNotFound rpid\<rparr>]) = Some y"
        by simp
      from 1(1)[OF this] show ?thesis by auto
    next
      case (Some k)
      then have k: "k < length ps" by (auto dest: index_of_pid_Some)
      show ?thesis
      proof (cases "can_grant request rs")
        case False
        with 1(2) Cons a Some have "rr tq (queue' @ [(rpid, request)]) ps rs
          (res @ [\<lparr>granted = False, admission_message = RRDenied rpid\<rparr>]) = Some y"
          by simp
        from 1(1)[OF this] show ?thesis by auto
      next
        case True
        show ?thesis
        proof (cases "request = []")
          case True
          with 1(2) Cons a Some \<open>can_grant request rs\<close> show ?thesis by auto
        next
          case False
          let ?at = "min tq (Max (set request))"
          obtain e p' rs' where al:
            "allocate_loop 0 (map (\<lambda>req. min req ?at) request) (ps ! k) rs = (e, p', rs')"
            by (cases "allocate_loop 0 (map (\<lambda>req. min req ?at) request) (ps ! k) rs") auto
          show ?thesis
          proof (cases e)
            case (Some err)
            with 1(2) Cons a \<open>index_of_pid rpid ps = Some k\<close> True False al show ?thesis
              by (auto simp: Let_def)
          next
            case None
            have inv: "ledger_ok ps rs \<Longrightarrow> ledger_ok (ps[k := p']) rs'"
              using al None k by (auto intro: ledger_ok_allocate_loop)
            show ?thesis
            proof (cases "list_all (\<lambda>need. need = 0) (need_resources p')")
              case True
              with 1(2) Cons a \<open>index_of_pid rpid ps = Some k\<close> \<open>can_grant request rs\<close>
                False al None
              have "rr tq queue' (ps[k := p']) rs'
                  (res @ [\<lparr>granted = True, admission_message = RRCompleted rpid\<rparr>]) = Some y"
                by (simp add: Let_def)
              from 1(1)[OF this] inv show ?thesis by auto
            next
              case nz: False
              with 1(2) Cons a \<open>index_of_pid rpid ps = Some k\<close> \<open>can_grant request rs\<close>
                False al None
              have "rr tq (queue' @ [(rpid, map (max 0) (need_resources p'))]) (ps[k := p']) rs'
                  (res @ [\<lparr>granted = True, admission_message = RRPartial rpid\<rparr>]) = Some y"
                by (simp add: Let_def)
              from 1(1)[OF this] inv show ?thesis by auto
            qed
          qed
        qed
      qed
    qed
  qed
qed

lemma deallocate_ledger_ok:
  assumes "deallocate_resources ps rs process_id release = (Returned result, ps', rs')"
    "ledger_ok ps rs"
  shows "ledger_ok ps' rs'"
proof (cases "index_of_pid process_id ps")
  case None
  with assms show ?thesis by (simp add: deallocate_resources_def)
next
  case (Some k)
  then have k: "k < length ps" by (auto dest: index_of_pid_Some)
  obtain e p1 rs1 where al: "allocate_loop 0 (map uminus release) (ps ! k) rs = (e, p1, rs1)"
    by (cases "allocate_loop 0 (map uminus release) (ps ! k) rs") auto
  show ?thesis
  proof (cases e)
    case None
    with al assms(2) k have "ledger_ok (ps[k := p1]) rs1"
      by (auto intro: ledger_ok_allocate_loop)
    with assms Some al None show ?thesis
      by (auto simp: deallocate_resources_def release_loop_as_allocate_loop split: if_splits)
  next
    case (Some err)
    with assms \<open>index_of_pid process_id ps = Some k\<close> al show ?thesis
      by (auto simp: deallocate_resources_def release_loop_as_allocate_loop split: if_splits)
  qed
qed

lemma conservation_preserved_elsewhere:
  "(D_simulate_request ps rs process_id request = (out, ps', rs') \<and> ledger_ok ps rs
      \<longrightarrow> ledger_ok ps' rs')
   \<and> (fcfs_allocation qs rs reqs = (Returned results, qs', rs') \<and> ledger_ok qs rs
      \<longrightarrow> ledger_ok qs' rs')
   \<and> (priority_allocation qs rs reqs = (Returned results, qs', rs') \<and> ledger_ok qs rs
      \<longrightarrow> ledger_ok qs' rs')
   \<and> (round_robin_allocation ps rs reqs tq = Some (Returned results, ps', rs') \<and> ledger_ok ps rs
      \<longrightarrow> ledger_ok ps' rs')
   \<and> (deallocate_resources ps rs process_id release = (Returned result, ps', rs')
        \<and> ledger_ok ps rs
      \<longrightarrow> ledger_ok ps' rs')"
proof (intro conjI impI)
  assume "D_simulate_request ps rs process_id request = (out, ps', rs') \<and> ledger_ok ps rs"
  then show "ledger_ok ps' rs'" using simulate_request_ledger_ok by blast
next
  assume a: "fcfs_allocation qs rs reqs = (Returned results, qs', rs') \<and> ledger_ok qs rs"
  have "set (sort_key (\<lambda>k. arrival_time (qs ! k)) [0..<length qs]) \<subseteq> {..<length qs}"
    by auto
  with a show "ledger_ok qs' rs'"
    unfolding fcfs_allocation_def using fcfs_loop_ledger_ok by blast
next
  assume "priority_allocation qs rs reqs = (Returned results, qs', rs') \<and> ledger_ok qs rs"
  then show "ledger_ok qs' rs'"
    unfolding priority_allocation_def using priority_loop_ledger_ok by blast
next
  assume "round_robin_allocation ps rs reqs tq = Some (Returned results, ps', rs')
      \<and> ledger_ok ps rs"
  then show "ledger_ok ps' rs'"
    unfolding round_robin_allocation_def using rr_loop_ledger_ok by blast
next
  assume "deallocate_resources ps rs process_id release = (Returned result, ps', rs')
      \<and> ledger_ok ps rs"
  then show "ledger_ok ps' rs'" using deallocate_ledger_ok by blast
qed

end
